theory Spec2Isabelle
  imports Main "HOL-Library.Word"
begin

section \<open>The network container of reseau.cpp\<close>

text \<open>
  Vertex numbers, arc costs and arc types are \<^verbatim>\<open>unsigned int\<close>; tentative distances and
  predecessors are \<^verbatim>\<open>int\<close>. Both are 32-bit words here: addition wraps, \<open>sint\<close> reads a
  word as a C++ \<^verbatim>\<open>int\<close>, and the order \<open><\<close> on words is the unsigned one.

  Modelled from the spec: the declarations of the members \<^verbatim>\<open>nbSommets\<close>, \<^verbatim>\<open>nbArcs\<close> and
  \<^verbatim>\<open>m_arcs\<close> and of the type \<^verbatim>\<open>liste_arcs\<close> in \<^verbatim>\<open>reseau.h\<close>, which is not among the source
  files. The spec has a mapping from vertex identifier to the adjacency set of its
  outgoing arcs with a membership test in constant time on average, and reseau.cpp uses
  both levels through \<^verbatim>\<open>count\<close>, \<^verbatim>\<open>find\<close>, \<^verbatim>\<open>insert\<close>, \<^verbatim>\<open>erase\<close> and \<^verbatim>\<open>operator[]\<close>, an arc
  being destination, cost and type. The code also iterates over both levels, so they
  are association lists in iteration order. A new key goes to the end of the list; a
  hash container leaves that position unspecified. The two counters are \<^verbatim>\<open>int\<close>, the
  type their accessors return, and stay far from its bounds.
\<close>

type_synonym uint = "32 word"

type_synonym liste_arcs = "(uint \<times> uint \<times> uint) list"

type_synonym table_arcs = "(uint \<times> liste_arcs) list"

record Reseau =
  nbSommets :: int
  nbArcs :: int
  m_arcs :: table_arcs

text \<open>
  Every \<^verbatim>\<open>throw\<close> of the source is a \<open>logic_error\<close> with its message (the message of
  \<^verbatim>\<open>ajouterArc\<close> without its accent). \<open>EmptyHeap\<close> and
  \<open>InvalidHandle\<close> are the failures of the priority heap. \<open>comportement_indefini\<close> stands
  for the places where the C++ has no defined behaviour (dereferencing the end iterator
  or a dangling node pointer).
\<close>

datatype erreur = logic_error string | EmptyHeap | InvalidHandle | comportement_indefini

definition Reseau_vide :: Reseau where
  "Reseau_vide = \<lparr>nbSommets = 0, nbArcs = 0, m_arcs = []\<rparr>"

definition nombreSommets :: "Reseau \<Rightarrow> int" where
  "nombreSommets r = nbSommets r"

definition nombreArcs :: "Reseau \<Rightarrow> int" where
  "nombreArcs r = nbArcs r"

definition estVide :: "Reseau \<Rightarrow> bool" where
  "estVide r = (nbSommets r = 0)"

definition sommetExiste :: "Reseau \<Rightarrow> uint \<Rightarrow> bool" where
  "sommetExiste r numero = (numero \<in> fst ` set (m_arcs r))"

definition arcExiste :: "Reseau \<Rightarrow> uint \<Rightarrow> uint \<Rightarrow> erreur + bool" where
  "arcExiste r numOrigine numDest =
     (if \<not> (sommetExiste r numOrigine \<and> sommetExiste r numDest)
      then Inl (logic_error ''arcExiste: Un des sommets n'existe pas!'')
      else (case map_of (m_arcs r) numOrigine of
              None \<Rightarrow> Inl comportement_indefini
            | Some l \<Rightarrow> Inr (numDest \<in> fst ` set l)))"

text \<open>
  \<^verbatim>\<open>m_arcs[k]\<close> followed by a change \<open>f\<close> of the mapped value: \<^verbatim>\<open>operator[]\<close> creates an
  empty entry when the key is absent.
\<close>

fun crochets_maj :: "table_arcs \<Rightarrow> uint \<Rightarrow> (liste_arcs \<Rightarrow> liste_arcs) \<Rightarrow> table_arcs" where
  "crochets_maj [] k f = [(k, f [])]"
| "crochets_maj ((k', l) # m) k f =
     (if k' = k then (k', f l) # m else (k', l) # crochets_maj m k f)"

definition inserer :: "uint \<times> uint \<times> uint \<Rightarrow> liste_arcs \<Rightarrow> liste_arcs" where
  "inserer a l = (if fst a \<in> fst ` set l then l else l @ [a])"

definition effacer :: "uint \<Rightarrow> (uint \<times> 'v) list \<Rightarrow> (uint \<times> 'v) list" where
  "effacer k l = filter (\<lambda>kv. fst kv \<noteq> k) l"

definition ajouterSommet :: "Reseau \<Rightarrow> uint \<Rightarrow> erreur + Reseau" where
  "ajouterSommet r p_numero =
     (if sommetExiste r p_numero
      then Inl (logic_error ''ajouterSommet: Un sommet avec le numero existe!'')
      else Inr (r\<lparr>m_arcs := crochets_maj (m_arcs r) p_numero (\<lambda>_. []),
                  nbSommets := nbSommets r + 1\<rparr>))"

definition ajouterArc :: "Reseau \<Rightarrow> uint \<Rightarrow> uint \<Rightarrow> uint \<Rightarrow> uint \<Rightarrow> erreur + Reseau" where
  "ajouterArc r numOrigine numDest cout type =
     (case arcExiste r numOrigine numDest of
        Inl e \<Rightarrow> Inl e
      | Inr True \<Rightarrow> Inl (logic_error ''ajouterArc: arc deja existant'')
      | Inr False \<Rightarrow>
          Inr (r\<lparr>m_arcs := crochets_maj (m_arcs r) numOrigine (inserer (numDest, cout, type)),
                 nbArcs := nbArcs r + 1\<rparr>))"

definition enleverArc :: "Reseau \<Rightarrow> uint \<Rightarrow> uint \<Rightarrow> erreur + Reseau" where
  "enleverArc r numOrigine numDest =
     (case arcExiste r numOrigine numDest of
        Inl e \<Rightarrow> Inl e
      | Inr False \<Rightarrow> Inl (logic_error ''enleverArc: arc non existant'')
      | Inr True \<Rightarrow>
          Inr (r\<lparr>m_arcs := crochets_maj (m_arcs r) numOrigine (effacer numDest),
                 nbArcs := nbArcs r - 1\<rparr>))"

text \<open>
  The loop of \<^verbatim>\<open>enleverSommet\<close> visits the keys of \<^verbatim>\<open>m_arcs\<close>; its body changes mapped
  values only, never the keys.
\<close>

fun enleverSommet_boucle :: "uint list \<Rightarrow> uint \<Rightarrow> Reseau \<Rightarrow> erreur + Reseau" where
  "enleverSommet_boucle [] numero r = Inr r"
| "enleverSommet_boucle (origine # reste) numero r =
     (case arcExiste r origine numero of
        Inl e \<Rightarrow> Inl e
      | Inr False \<Rightarrow> enleverSommet_boucle reste numero r
      | Inr True \<Rightarrow>
          (case enleverArc r origine numero of
             Inl e \<Rightarrow> Inl e
           | Inr r' \<Rightarrow> enleverSommet_boucle reste numero r'))"

definition enleverSommet :: "Reseau \<Rightarrow> uint \<Rightarrow> erreur + Reseau" where
  "enleverSommet r numero =
     (if \<not> sommetExiste r numero
      then Inl (logic_error ''enleverSommet: le sommet n'existe pas'')
      else (case enleverSommet_boucle (map fst (m_arcs r)) numero r of
              Inl e \<Rightarrow> Inl e
            | Inr r' \<Rightarrow> Inr (r'\<lparr>m_arcs := effacer numero (m_arcs r'),
                               nbSommets := nbSommets r' - 1\<rparr>)))"

definition majCoutArc :: "Reseau \<Rightarrow> uint \<Rightarrow> uint \<Rightarrow> uint \<Rightarrow> erreur + Reseau" where
  "majCoutArc r numOrigine numDest cout =
     (case arcExiste r numOrigine numDest of
        Inl e \<Rightarrow> Inl e
      | Inr False \<Rightarrow> Inl (logic_error ''majCoutArc: arc non existant'')
      | Inr True \<Rightarrow>
          Inr (r\<lparr>m_arcs := crochets_maj (m_arcs r) numOrigine
                   (map (\<lambda>(d, c, t). if d = numDest then (d, cout, t) else (d, c, t)))\<rparr>))"

text \<open>The stored attributes of an arc, for a pair that \<^verbatim>\<open>arcExiste\<close> has accepted.\<close>

definition attributs :: "Reseau \<Rightarrow> uint \<Rightarrow> uint \<Rightarrow> erreur + (uint \<times> uint)" where
  "attributs r numOrigine numDest =
     (case map_of (m_arcs r) numOrigine of
        None \<Rightarrow> Inl comportement_indefini
      | Some l \<Rightarrow> (case map_of l numDest of
                     None \<Rightarrow> Inl comportement_indefini
                   | Some a \<Rightarrow> Inr a))"

definition getCoutArc :: "Reseau \<Rightarrow> uint \<Rightarrow> uint \<Rightarrow> erreur + int" where
  "getCoutArc r numOrigine numDest =
     (case arcExiste r numOrigine numDest of
        Inl e \<Rightarrow> Inl e
      | Inr False \<Rightarrow> Inl (logic_error ''getCoutArc: arc non existant'')
      | Inr True \<Rightarrow> (case attributs r numOrigine numDest of
                       Inl e \<Rightarrow> Inl e
                     | Inr a \<Rightarrow> Inr (sint (fst a))))"

definition getTypeArc :: "Reseau \<Rightarrow> uint \<Rightarrow> uint \<Rightarrow> erreur + int" where
  "getTypeArc r numOrigine numDest =
     (case arcExiste r numOrigine numDest of
        Inl e \<Rightarrow> Inl e
      | Inr False \<Rightarrow> Inl (logic_error ''getTypeArc: arc non existant'')
      | Inr True \<Rightarrow> (case attributs r numOrigine numDest of
                       Inl e \<Rightarrow> Inl e
                     | Inr a \<Rightarrow> Inr (sint (snd a))))"

text \<open>
  A caller builds a network from the empty one with \<^verbatim>\<open>ajouterSommet\<close> and \<^verbatim>\<open>ajouterArc\<close>;
  the first failure stops the construction.
\<close>

fun ajouterSommets :: "uint list \<Rightarrow> Reseau \<Rightarrow> erreur + Reseau" where
  "ajouterSommets [] r = Inr r"
| "ajouterSommets (s # ss) r =
     (case ajouterSommet r s of Inl e \<Rightarrow> Inl e | Inr r' \<Rightarrow> ajouterSommets ss r')"

fun ajouterArcs :: "(uint \<times> uint \<times> uint \<times> uint) list \<Rightarrow> Reseau \<Rightarrow> erreur + Reseau" where
  "ajouterArcs [] r = Inr r"
| "ajouterArcs ((orig, dest, cout, type) # as) r =
     (case ajouterArc r orig dest cout type of
        Inl e \<Rightarrow> Inl e
      | Inr r' \<Rightarrow> ajouterArcs as r')"

definition construire :: "uint list \<Rightarrow> (uint \<times> uint \<times> uint \<times> uint) list \<Rightarrow> erreur + Reseau" where
  "construire ss as =
     (case ajouterSommets ss Reseau_vide of Inl e \<Rightarrow> Inl e | Inr r \<Rightarrow> ajouterArcs as r)"

text \<open>The number of (origin, destination) entries over all adjacency sets.\<close>

definition nombre_entrees :: "Reseau \<Rightarrow> int" where
  "nombre_entrees r = int (sum_list (map (\<lambda>kv. length (snd kv)) (m_arcs r)))"


section \<open>The priority heap used by the heap-accelerated search\<close>

text \<open>
  Modelled from the spec: the class \<^verbatim>\<open>PairingH\<close> and its node type \<^verbatim>\<open>Noeud\<close> of
  \<^verbatim>\<open>PairingH.h\<close>, which reseau.cpp includes and which is not among the source files. The
  spec describes a pairing heap: a multiway tree with the smallest key at the root,
  \<^emph>\<open>insert\<close> melding a singleton with the root, \<^emph>\<open>delete-minimum\<close> melding the children of
  the root in pairs from left to right and then the results from right to left, and
  \<^emph>\<open>decrease-key\<close> lowering the root in place or detaching the subtree of the handle and
  melding it with the root. Where the spec is silent the model decides: a meld of two
  equal keys keeps the first tree on top, the losing tree becomes the leftmost child, and
  the keys are \<^verbatim>\<open>unsigned int\<close>, the type reseau.cpp reads them into.

  A node pointer \<^verbatim>\<open>Noeud *\<close> is the vertex number the node carries (every vertex is
  inserted once), \<open>None\<close> being \<^verbatim>\<open>nullptr\<close>.
\<close>

datatype Noeud = Noeud (distance: uint) (m_sommet: uint) (enfants: "Noeud list")

type_synonym PairingH = "Noeud option"

type_synonym pointeur = "uint option"

fun fusionner :: "Noeud \<Rightarrow> Noeud \<Rightarrow> Noeud" where
  "fusionner (Noeud k1 s1 c1) (Noeud k2 s2 c2) =
     (if k2 < k1 then Noeud k2 s2 (Noeud k1 s1 c1 # c2)
      else Noeud k1 s1 (Noeud k2 s2 c2 # c1))"

definition ajouterNoeud :: "PairingH \<Rightarrow> uint \<Rightarrow> uint \<Rightarrow> PairingH \<times> pointeur" where
  "ajouterNoeud tas cle sommet =
     (case tas of
        None \<Rightarrow> (Some (Noeud cle sommet []), Some sommet)
      | Some racine \<Rightarrow> (Some (fusionner racine (Noeud cle sommet [])), Some sommet))"

definition getRacine :: "PairingH \<Rightarrow> erreur + Noeud" where
  "getRacine tas = (case tas of None \<Rightarrow> Inl EmptyHeap | Some racine \<Rightarrow> Inr racine)"

fun fusion_paires :: "Noeud list \<Rightarrow> Noeud list" where
  "fusion_paires (a # b # reste) = fusionner a b # fusion_paires reste"
| "fusion_paires l = l"

fun fusion_droite :: "Noeud list \<Rightarrow> PairingH" where
  "fusion_droite [] = None"
| "fusion_droite (a # reste) =
     (case fusion_droite reste of None \<Rightarrow> Some a | Some t \<Rightarrow> Some (fusionner a t))"

definition supprimerRacine :: "PairingH \<Rightarrow> erreur + PairingH" where
  "supprimerRacine tas =
     (case tas of
        None \<Rightarrow> Inl EmptyHeap
      | Some racine \<Rightarrow> Inr (fusion_droite (fusion_paires (enfants racine))))"

text \<open>The node a pointer designates, if it is still in the heap.\<close>

fun trouver :: "uint \<Rightarrow> Noeud \<Rightarrow> Noeud option"
  and trouver_liste :: "uint \<Rightarrow> Noeud list \<Rightarrow> Noeud option" where
  "trouver p (Noeud k s c) = (if s = p then Some (Noeud k s c) else trouver_liste p c)"
| "trouver_liste p [] = None"
| "trouver_liste p (n # reste) =
     (case trouver p n of Some x \<Rightarrow> Some x | None \<Rightarrow> trouver_liste p reste)"

definition lire :: "PairingH \<Rightarrow> uint \<Rightarrow> Noeud option" where
  "lire tas p = (case tas of None \<Rightarrow> None | Some racine \<Rightarrow> trouver p racine)"

text \<open>The tree without the subtree of a pointer.\<close>

fun detacher :: "uint \<Rightarrow> Noeud \<Rightarrow> Noeud"
  and detacher_liste :: "uint \<Rightarrow> Noeud list \<Rightarrow> Noeud list" where
  "detacher p (Noeud k s c) = Noeud k s (detacher_liste p c)"
| "detacher_liste p [] = []"
| "detacher_liste p (n # reste) =
     (if m_sommet n = p then reste else detacher p n # detacher_liste p reste)"

definition diminuerDistance :: "PairingH \<Rightarrow> pointeur \<Rightarrow> uint \<Rightarrow> erreur + PairingH" where
  "diminuerDistance tas ptr cle =
     (case ptr of
        None \<Rightarrow> Inl comportement_indefini
      | Some p \<Rightarrow>
         (case tas of
            None \<Rightarrow> Inl InvalidHandle
          | Some racine \<Rightarrow>
             (case trouver p racine of
                None \<Rightarrow> Inl InvalidHandle
              | Some n \<Rightarrow>
                  if distance n < cle then Inl InvalidHandle
                  else if m_sommet racine = p
                  then Inr (Some (Noeud cle (m_sommet racine) (enfants racine)))
                  else Inr (Some (fusionner (detacher p racine)
                                   (Noeud cle (m_sommet n) (enfants n)))))))"


section \<open>The three shortest-path operations\<close>

text \<open>
  The local tables \<^verbatim>\<open>distances\<close>, \<^verbatim>\<open>predecesseurs\<close> and \<^verbatim>\<open>sommets\<close> are hash maps that the
  code reads and writes with \<^verbatim>\<open>operator[]\<close> only and never iterates over: a key that is
  absent reads as the value-initialised entry, so each is a total function that starts
  at zero everywhere. \<^verbatim>\<open>m_arcs[k]\<close> is \<^verbatim>\<open>operator[]\<close> on the member itself, which would
  add an empty entry for an absent key; \<open>crochets\<close> returns the table after the access.

  An operation returns the network after the call together with either the exception
  raised or the returned distance and the contents of the output vector \<^verbatim>\<open>chemin\<close>.
  \<open>None\<close> means that the call never returns. The line that \<^verbatim>\<open>meilleurPlusCourtChemin\<close>
  prints on \<^verbatim>\<open>std::cout\<close> is left out.
\<close>

type_synonym resultat = "erreur + (int \<times> uint list)"

definition max_poids :: uint where
  "max_poids = 2147483647"

definition crochets :: "table_arcs \<Rightarrow> uint \<Rightarrow> table_arcs \<times> liste_arcs" where
  "crochets m k = (case map_of m k of Some l \<Rightarrow> (m, l) | None \<Rightarrow> (m @ [(k, [])], []))"

text \<open>
  The working set \<^verbatim>\<open>Q\<close> is a hash set that the code iterates over: a duplicate-free list,
  here in insertion order. The library leaves the iteration order of a hash set unspecified,
  so a result that depends on this order is a result for this order.
\<close>

definition inserer_ens :: "uint \<Rightarrow> uint list \<Rightarrow> uint list" where
  "inserer_ens k q = (if k \<in> set q then q else q @ [k])"

text \<open>
  The reconstruction loop shared by \<^verbatim>\<open>dijkstra\<close> and \<^verbatim>\<open>bellmanFord\<close>:
  \<^verbatim>\<open>while (courant != -1) { chemin_inverse.push_back(courant); courant = predecesseurs[courant]; }\<close>
\<close>

partial_function (option) remonter :: "(uint \<Rightarrow> uint) \<Rightarrow> uint \<Rightarrow> uint list \<Rightarrow> uint list option" where
  "remonter predecesseurs courant chemin_inverse =
     (if courant \<noteq> - 1
      then remonter predecesseurs (predecesseurs courant) (chemin_inverse @ [courant])
      else Some chemin_inverse)"

declare remonter.simps [code]

definition reconstruire :: "(uint \<Rightarrow> uint) \<Rightarrow> uint \<Rightarrow> uint list option" where
  "reconstruire predecesseurs numDest =
     (if predecesseurs numDest \<noteq> - 1
      then map_option rev (remonter predecesseurs numDest [])
      else Some [])"

subsection \<open>dijkstra\<close>

definition dijkstra_init :: "table_arcs \<Rightarrow> (uint \<Rightarrow> uint) \<times> (uint \<Rightarrow> uint) \<times> uint list" where
  "dijkstra_init m =
     fold (\<lambda>kv (distances, predecesseurs, q).
             (distances(fst kv := max_poids), predecesseurs(fst kv := - 1), inserer_ens (fst kv) q))
          m (\<lambda>_. 0, \<lambda>_. 0, [])"

definition choisir_min :: "(uint \<Rightarrow> uint) \<Rightarrow> uint list \<Rightarrow> uint \<Rightarrow> uint" where
  "choisir_min distances q debut =
     fold (\<lambda>noeud noeud_min.
             if sint (distances noeud) < sint (distances noeud_min) then noeud else noeud_min)
          q debut"

definition dijkstra_relacher ::
  "uint \<Rightarrow> uint list \<Rightarrow> liste_arcs \<Rightarrow> (uint \<Rightarrow> uint) \<times> (uint \<Rightarrow> uint)
     \<Rightarrow> (uint \<Rightarrow> uint) \<times> (uint \<Rightarrow> uint)" where
  "dijkstra_relacher noeud_min q arcs =
     fold (\<lambda>voisin (distances, predecesseurs).
             if fst voisin \<in> set q
             then (let temp = fst (snd voisin) + distances noeud_min
                   in if sint temp < sint (distances (fst voisin))
                      then (distances(fst voisin := temp), predecesseurs(fst voisin := noeud_min))
                      else (distances, predecesseurs))
             else (distances, predecesseurs))
          arcs"

text \<open>
  The first argument counts the iterations that \<^verbatim>\<open>for (int i = 0; i < nbSommets; i++)\<close> has
  left. \<^verbatim>\<open>*(Q.begin())\<close> on an empty set is undefined.
\<close>

fun dijkstra_boucle ::
  "nat \<Rightarrow> uint \<Rightarrow> table_arcs \<Rightarrow> (uint \<Rightarrow> uint) \<Rightarrow> (uint \<Rightarrow> uint) \<Rightarrow> uint list
     \<Rightarrow> table_arcs \<times> (erreur + (uint \<Rightarrow> uint) \<times> (uint \<Rightarrow> uint))" where
  "dijkstra_boucle 0 numDest m distances predecesseurs q = (m, Inr (distances, predecesseurs))"
| "dijkstra_boucle (Suc n) numDest m distances predecesseurs q =
     (case q of
        [] \<Rightarrow> (m, Inl comportement_indefini)
      | debut # _ \<Rightarrow>
          (let noeud_min = choisir_min distances q debut;
               q' = removeAll noeud_min q
           in if noeud_min = numDest then (m, Inr (distances, predecesseurs))
              else (let (m', arcs) = crochets m noeud_min;
                        (distances', predecesseurs') =
                           dijkstra_relacher noeud_min q' arcs (distances, predecesseurs)
                    in dijkstra_boucle n numDest m' distances' predecesseurs' q')))"

definition dijkstra :: "Reseau \<Rightarrow> uint \<Rightarrow> uint \<Rightarrow> (Reseau \<times> resultat) option" where
  "dijkstra r numOrigine numDest =
     (if \<not> sommetExiste r numOrigine \<or> \<not> sommetExiste r numDest
      then Some (r, Inl (logic_error ''dijkstra: Un des sommets n'existe pas!''))
      else (let (distances, predecesseurs, q) = dijkstra_init (m_arcs r)
            in case dijkstra_boucle (nat (nbSommets r)) numDest (m_arcs r)
                      (distances(numOrigine := 0)) predecesseurs q of
                 (m', Inl e) \<Rightarrow> Some (r\<lparr>m_arcs := m'\<rparr>, Inl e)
               | (m', Inr (distances', predecesseurs')) \<Rightarrow>
                   map_option (\<lambda>chemin. (r\<lparr>m_arcs := m'\<rparr>, Inr (sint (distances' numDest), chemin)))
                     (reconstruire predecesseurs' numDest)))"

subsection \<open>meilleurPlusCourtChemin\<close>

type_synonym table_sommets = "uint \<Rightarrow> pointeur \<times> uint"

definition mpcc_init :: "table_arcs \<Rightarrow> PairingH \<times> table_sommets" where
  "mpcc_init m =
     fold (\<lambda>kv (tas, sommets).
             (let (tas', ptr) = ajouterNoeud tas 9999 (fst kv)
              in (tas', sommets(fst kv := (ptr, 9999)))))
          m (None, \<lambda>_. (None, 0))"

text \<open>
  The inner loop over the arcs of \<^verbatim>\<open>u_etoile\<close>. Reading a field through a pointer whose
  node has left the heap is undefined.
\<close>

fun mpcc_relacher ::
  "uint \<Rightarrow> uint \<Rightarrow> liste_arcs \<Rightarrow> PairingH \<Rightarrow> table_sommets \<Rightarrow> erreur + PairingH \<times> table_sommets" where
  "mpcc_relacher dist_u_etoile u_etoile_sommet [] tas sommets = Inr (tas, sommets)"
| "mpcc_relacher dist_u_etoile u_etoile_sommet (u # reste) tas sommets =
     (case fst (sommets (fst u)) of
        None \<Rightarrow> mpcc_relacher dist_u_etoile u_etoile_sommet reste tas sommets
      | Some p \<Rightarrow>
         (case lire tas p of
            None \<Rightarrow> Inl comportement_indefini
          | Some n \<Rightarrow>
             (let dist_temp = dist_u_etoile + fst (snd u);
                  dist_u = distance n
              in if dist_temp < dist_u
                 then (case diminuerDistance tas (Some p) dist_temp of
                         Inl e \<Rightarrow> Inl e
                       | Inr tas' \<Rightarrow>
                          (case fst (sommets u_etoile_sommet) of
                             None \<Rightarrow> Inl comportement_indefini
                           | Some pe \<Rightarrow>
                              (case lire tas' pe of
                                 None \<Rightarrow> Inl comportement_indefini
                               | Some ne \<Rightarrow>
                                   mpcc_relacher dist_u_etoile u_etoile_sommet reste tas'
                                     (sommets(fst u := (fst (sommets (fst u)), m_sommet ne))))))
                 else mpcc_relacher dist_u_etoile u_etoile_sommet reste tas sommets)))"

text \<open>
  The first argument counts the iterations left; \<^verbatim>\<open>i = max_iter\<close> ends the loop after the
  current iteration has marked the vertex and removed the root.
\<close>

fun mpcc_boucle ::
  "nat \<Rightarrow> uint \<Rightarrow> table_arcs \<Rightarrow> PairingH \<Rightarrow> table_sommets \<Rightarrow> uint
     \<Rightarrow> table_arcs \<times> (erreur + table_sommets \<times> uint)" where
  "mpcc_boucle 0 numDest m tas sommets longueur_chemin = (m, Inr (sommets, longueur_chemin))"
| "mpcc_boucle (Suc n) numDest m tas sommets longueur_chemin =
     (case getRacine tas of
        Inl e \<Rightarrow> (m, Inl e)
      | Inr u_etoile \<Rightarrow>
         (let dist_u_etoile = distance u_etoile;
              u_etoile_sommet = m_sommet u_etoile;
              (m', arcs) = crochets m (m_sommet u_etoile)
          in case mpcc_relacher dist_u_etoile u_etoile_sommet arcs tas sommets of
               Inl e \<Rightarrow> (m', Inl e)
             | Inr (tas', sommets') \<Rightarrow>
                (case lire tas' u_etoile_sommet of
                   None \<Rightarrow> (m', Inl comportement_indefini)
                 | Some ue \<Rightarrow>
                    (let arrivee = (m_sommet ue = numDest);
                         longueur' = (if arrivee then distance ue else longueur_chemin);
                         sommets'' = sommets'(m_sommet ue := (None, snd (sommets' (m_sommet ue))))
                     in case supprimerRacine tas' of
                          Inl e \<Rightarrow> (m', Inl e)
                        | Inr tas'' \<Rightarrow>
                            if arrivee then (m', Inr (sommets'', longueur'))
                            else mpcc_boucle n numDest m' tas'' sommets'' longueur'))))"

text \<open>
  \<^verbatim>\<open>while (courant != numOrigine) { chemin_inverse.push_back(courant); courant = sommets[courant].second; }\<close>
\<close>

partial_function (option) mpcc_remonter ::
  "table_sommets \<Rightarrow> uint \<Rightarrow> uint \<Rightarrow> uint list \<Rightarrow> uint list option" where
  "mpcc_remonter sommets numOrigine courant chemin_inverse =
     (if courant \<noteq> numOrigine
      then mpcc_remonter sommets numOrigine (snd (sommets courant)) (chemin_inverse @ [courant])
      else Some chemin_inverse)"

declare mpcc_remonter.simps [code]

definition meilleurPlusCourtChemin :: "Reseau \<Rightarrow> uint \<Rightarrow> uint \<Rightarrow> (Reseau \<times> resultat) option" where
  "meilleurPlusCourtChemin r numOrigine numDest =
     (if \<not> sommetExiste r numOrigine \<or> \<not> sommetExiste r numDest
      then Some (r, Inl (logic_error ''dijkstra: Un des sommets n'existe pas!''))
      else (let (tas, sommets) = mpcc_init (m_arcs r)
            in case diminuerDistance tas (fst (sommets numOrigine)) 0 of
                 Inl e \<Rightarrow> Some (r, Inl e)
               | Inr tas' \<Rightarrow>
                  (case mpcc_boucle (length (m_arcs r)) numDest (m_arcs r) tas' sommets 0 of
                     (m', Inl e) \<Rightarrow> Some (r\<lparr>m_arcs := m'\<rparr>, Inl e)
                   | (m', Inr (sommets', longueur_chemin)) \<Rightarrow>
                       if snd (sommets' numDest) = 0
                       then Some (r\<lparr>m_arcs := m'\<rparr>, Inr (sint longueur_chemin, []))
                       else map_option
                              (\<lambda>chemin_inverse.
                                 (r\<lparr>m_arcs := m'\<rparr>,
                                  Inr (sint longueur_chemin, numOrigine # chemin_inverse)))
                              (mpcc_remonter sommets' numOrigine numDest []))))"

subsection \<open>bellmanFord\<close>

definition bellmanFord_init :: "table_arcs \<Rightarrow> (uint \<Rightarrow> uint) \<times> (uint \<Rightarrow> uint)" where
  "bellmanFord_init m =
     fold (\<lambda>kv (distances, predecesseurs).
             (distances(fst kv := max_poids), predecesseurs(fst kv := - 1)))
          m (\<lambda>_. 0, \<lambda>_. 0)"

definition bellmanFord_voisins ::
  "uint \<Rightarrow> liste_arcs \<Rightarrow> (uint \<Rightarrow> uint) \<times> (uint \<Rightarrow> uint) \<times> bool
     \<Rightarrow> (uint \<Rightarrow> uint) \<times> (uint \<Rightarrow> uint) \<times> bool" where
  "bellmanFord_voisins noeud_courant arcs =
     fold (\<lambda>voisin (distances, predecesseurs, estInstable).
             (let temp = fst (snd voisin) + distances noeud_courant
              in if sint temp < sint (distances (fst voisin)) \<and> 0 \<le> sint temp
                 then (distances(fst voisin := temp),
                       predecesseurs(fst voisin := noeud_courant), True)
                 else (distances, predecesseurs, estInstable)))
          arcs"

definition bellmanFord_passe ::
  "table_arcs \<Rightarrow> (uint \<Rightarrow> uint) \<times> (uint \<Rightarrow> uint) \<times> bool
     \<Rightarrow> (uint \<Rightarrow> uint) \<times> (uint \<Rightarrow> uint) \<times> bool" where
  "bellmanFord_passe m =
     fold (\<lambda>kv (distances, predecesseurs, estInstable).
             if sint (distances (fst kv)) < sint max_poids
             then bellmanFord_voisins (fst kv) (snd kv) (distances, predecesseurs, estInstable)
             else (distances, predecesseurs, estInstable))
          m"

text \<open>
  The first argument counts the passes that \<^verbatim>\<open>for (int i = 1; (i < nbSommets) && estInstable; i++)\<close>
  has left.
\<close>

fun bellmanFord_boucle ::
  "nat \<Rightarrow> table_arcs \<Rightarrow> (uint \<Rightarrow> uint) \<Rightarrow> (uint \<Rightarrow> uint) \<Rightarrow> (uint \<Rightarrow> uint) \<times> (uint \<Rightarrow> uint)" where
  "bellmanFord_boucle 0 m distances predecesseurs = (distances, predecesseurs)"
| "bellmanFord_boucle (Suc n) m distances predecesseurs =
     (let (distances', predecesseurs', estInstable) =
            bellmanFord_passe m (distances, predecesseurs, False)
      in if estInstable then bellmanFord_boucle n m distances' predecesseurs'
         else (distances', predecesseurs'))"

definition bellmanFord :: "Reseau \<Rightarrow> uint \<Rightarrow> uint \<Rightarrow> (Reseau \<times> resultat) option" where
  "bellmanFord r numOrigine numDest =
     (if \<not> sommetExiste r numOrigine \<or> \<not> sommetExiste r numDest
      then Some (r, Inl (logic_error ''bellmanFord: Un des sommets n'existe pas!''))
      else (let (distances, predecesseurs) = bellmanFord_init (m_arcs r);
                (distances', predecesseurs') =
                   bellmanFord_boucle (nat (nbSommets r - 1)) (m_arcs r)
                     (distances(numOrigine := 0)) predecesseurs
            in map_option (\<lambda>chemin. (r, Inr (sint (distances' numDest), chemin)))
                 (reconstruire predecesseurs' numDest)))"


section \<open>Notions used in the statements\<close>

text \<open>The cost of a vertex sequence: the sum of \<^verbatim>\<open>getCoutArc\<close> over its consecutive pairs.\<close>

fun cout_chemin :: "Reseau \<Rightarrow> uint list \<Rightarrow> int option" where
  "cout_chemin r (a # b # reste) =
     (case getCoutArc r a b of
        Inl e \<Rightarrow> None
      | Inr c \<Rightarrow> map_option (\<lambda>s. c + s) (cout_chemin r (b # reste)))"
| "cout_chemin r chemin = Some 0"

text \<open>Every tentative distance of a table is non-negative as an \<^verbatim>\<open>int\<close>.\<close>

definition positives :: "(uint \<Rightarrow> uint) \<Rightarrow> bool" where
  "positives distances = (\<forall>v. 0 \<le> sint (distances v))"

text \<open>The origin of a search keeps the distance 0 and no predecessor.\<close>

definition a_l_origine :: "uint \<Rightarrow> (uint \<Rightarrow> uint) \<times> (uint \<Rightarrow> uint) \<times> bool \<Rightarrow> bool" where
  "a_l_origine v s = (fst s v = 0 \<and> fst (snd s) v = - 1)"

text \<open>Every node of a heap satisfies a predicate on its key and its vertex.\<close>

fun tous :: "(uint \<Rightarrow> uint \<Rightarrow> bool) \<Rightarrow> Noeud \<Rightarrow> bool" where
  "tous P (Noeud k s c) = (P k s \<and> (\<forall>n \<in> set c. tous P n))"

definition pour_tous :: "(uint \<Rightarrow> uint \<Rightarrow> bool) \<Rightarrow> PairingH \<Rightarrow> bool" where
  "pour_tous P tas = (case tas of None \<Rightarrow> True | Some racine \<Rightarrow> tous P racine)"

text \<open>
  The networks of the scenarios. Each is the value that \<open>construire\<close> returns for the
  listed vertices and arcs. An arc of cost \<open>-10\<close> is stored as the \<^verbatim>\<open>unsigned int\<close>
  \<open>4294967286\<close>, which \<^verbatim>\<open>getCoutArc\<close> returns as the \<^verbatim>\<open>int\<close> \<open>-10\<close>.
\<close>

definition reseau_scenario :: Reseau where
  "reseau_scenario =
     \<lparr>nbSommets = 4, nbArcs = 4,
      m_arcs = [(1, [(2, 1, 0), (3, 5, 0)]), (2, [(3, 2, 0)]), (3, [(4, 1, 0)]), (4, [])]\<rparr>"

definition reseau_arc_negatif :: Reseau where
  "reseau_arc_negatif =
     \<lparr>nbSommets = 4, nbArcs = 4,
      m_arcs = [(1, [(2, 1, 0), (3, 5, 0)]), (2, [(3, - 10, 0)]), (3, [(4, 1, 0)]), (4, [])]\<rparr>"

definition reseau_detour :: Reseau where
  "reseau_detour =
     \<lparr>nbSommets = 3, nbArcs = 3,
      m_arcs = [(1, [(2, 20, 0), (3, 15, 0)]), (2, [(3, - 10, 0)]), (3, [])]\<rparr>"

definition reseau_arc_long :: Reseau where
  "reseau_arc_long = \<lparr>nbSommets = 2, nbArcs = 1, m_arcs = [(0, [(2, 10000, 0)]), (2, [])]\<rparr>"

definition reseau_zero_cinq :: Reseau where
  "reseau_zero_cinq = \<lparr>nbSommets = 2, nbArcs = 0, m_arcs = [(0, []), (5, [])]\<rparr>"

definition reseau_un_cinq :: Reseau where
  "reseau_un_cinq = \<lparr>nbSommets = 2, nbArcs = 0, m_arcs = [(1, []), (5, [])]\<rparr>"

definition reseau_un_six_cinq :: Reseau where
  "reseau_un_six_cinq = \<lparr>nbSommets = 3, nbArcs = 1, m_arcs = [(1, []), (6, [(5, 1, 0)]), (5, [])]\<rparr>"

definition reseau_singleton :: Reseau where
  "reseau_singleton = \<lparr>nbSommets = 1, nbArcs = 0, m_arcs = [(1, [])]\<rparr>"

definition reseau_un_arc :: Reseau where
  "reseau_un_arc = \<lparr>nbSommets = 2, nbArcs = 1, m_arcs = [(1, [(2, 7, 0)]), (2, [])]\<rparr>"

text \<open>
  An arc as it is stored: the adjacency entry of \<open>u\<close> lists the destination \<open>v\<close> with the
  cost \<open>c\<close>.
\<close>

definition arc :: "Reseau \<Rightarrow> uint \<Rightarrow> uint \<Rightarrow> uint \<Rightarrow> bool" where
  "arc r u v c = (\<exists>l t. (u, l) \<in> set (m_arcs r) \<and> (v, c, t) \<in> set l)"

text \<open>
  The representation that \<^verbatim>\<open>ajouterSommet\<close> and \<^verbatim>\<open>ajouterArc\<close> maintain: a key occurs once
  in \<^verbatim>\<open>m_arcs\<close>, an adjacency entry names a destination once, every destination is a vertex
  of the network, and \<^verbatim>\<open>nbSommets\<close> counts the keys.
\<close>

definition bien_forme :: "Reseau \<Rightarrow> bool" where
  "bien_forme r =
     (distinct (map fst (m_arcs r)) \<and>
      (\<forall>kv \<in> set (m_arcs r).
         distinct (map fst (snd kv)) \<and> (\<forall>a \<in> set (snd kv). fst a \<in> fst ` set (m_arcs r))) \<and>
      nbSommets r = int (length (m_arcs r)))"

text \<open>
  A walk of the network from \<open>a\<close> to \<open>b\<close> with its cost: a non-empty sequence of vertices
  that starts at \<open>a\<close>, ends at \<open>b\<close> and whose consecutive pairs are arcs. The cost is the
  sum of the arc costs as \<^verbatim>\<open>getCoutArc\<close> returns them, in unbounded integers.
\<close>

definition marche :: "Reseau \<Rightarrow> uint \<Rightarrow> uint list \<Rightarrow> uint \<Rightarrow> int \<Rightarrow> bool" where
  "marche r a p b w = (p \<noteq> [] \<and> hd p = a \<and> last p = b \<and> cout_chemin r p = Some w)"

text \<open>
  The setting of the correctness proof of \<^verbatim>\<open>bellmanFord\<close> for the origin \<open>a\<close>: the network is
  well formed, \<open>a\<close> is a vertex, the number \<open>-1\<close> (as \<^verbatim>\<open>unsigned int\<close>: 4294967295), which
  the code uses for ``no predecessor'', is not a vertex, and no walk from \<open>a\<close> has a negative
  cost.
\<close>

definition contexte :: "Reseau \<Rightarrow> uint \<Rightarrow> bool" where
  "contexte r a =
     (bien_forme r \<and> sommetExiste r a \<and> \<not> sommetExiste r (- 1) \<and>
      (\<forall>p v w. marche r a p v w \<longrightarrow> 0 \<le> w))"

text \<open>The predecessor table seen as a relation on the vertices of the network.\<close>

definition relation_pred :: "Reseau \<Rightarrow> (uint \<Rightarrow> uint) \<Rightarrow> (uint \<times> uint) set" where
  "relation_pred r predecesseurs =
     {(predecesseurs v, v) | v. v \<in> fst ` set (m_arcs r) \<and> predecesseurs v \<noteq> - 1}"

text \<open>
  The invariant of the relaxation of \<^verbatim>\<open>bellmanFord\<close>: the origin keeps the distance 0 and no
  predecessor; the distances are non-negative; a distance below \<^verbatim>\<open>INT_MAX\<close> is the cost of a
  walk from the origin; a predecessor is a vertex with a distance below \<^verbatim>\<open>INT_MAX\<close>, joined
  to its successor by an arc that accounts for the successor's distance; a vertex other than
  the origin with a distance below \<^verbatim>\<open>INT_MAX\<close> has a predecessor; and the predecessors form
  no cycle.
\<close>

definition inv_bf :: "Reseau \<Rightarrow> uint \<Rightarrow> (uint \<Rightarrow> uint) \<Rightarrow> (uint \<Rightarrow> uint) \<Rightarrow> bool" where
  "inv_bf r a distances predecesseurs =
     (distances a = 0 \<and> predecesseurs a = - 1 \<and> positives distances \<and>
      (\<forall>v. v \<in> fst ` set (m_arcs r) \<longrightarrow> sint (distances v) < 2147483647 \<longrightarrow>
           (\<exists>p. marche r a p v (sint (distances v)))) \<and>
      (\<forall>v. v \<in> fst ` set (m_arcs r) \<longrightarrow> predecesseurs v \<noteq> - 1 \<longrightarrow>
           predecesseurs v \<in> fst ` set (m_arcs r) \<and>
           sint (distances (predecesseurs v)) < 2147483647 \<and>
           sint (distances v) < 2147483647 \<and>
           (\<exists>c. arc r (predecesseurs v) v c \<and>
                sint (distances (predecesseurs v)) + sint c \<le> sint (distances v))) \<and>
      (\<forall>v. v \<in> fst ` set (m_arcs r) \<longrightarrow> v \<noteq> a \<longrightarrow> sint (distances v) < 2147483647 \<longrightarrow>
           predecesseurs v \<noteq> - 1) \<and>
      acyclic (relation_pred r predecesseurs))"

text \<open>
  The bodies of the two loops of \<^verbatim>\<open>bellmanFord\<close> as functions on the state (distances,
  predecessors, \<^verbatim>\<open>estInstable\<close>): \<open>relacher\<close> is the body of the loop over the arcs of
  \<^verbatim>\<open>noeud_courant\<close>, \<open>traiter\<close> the body of the loop over the vertices. The lemmas
  \<open>voisins_fold\<close> and \<open>passe_fold\<close> show that \<open>bellmanFord_voisins\<close> and \<open>bellmanFord_passe\<close>
  are the folds of these two functions.
\<close>

type_synonym etat = "(uint \<Rightarrow> uint) \<times> (uint \<Rightarrow> uint) \<times> bool"

definition relacher :: "uint \<Rightarrow> uint \<times> uint \<times> uint \<Rightarrow> etat \<Rightarrow> etat" where
  "relacher n voisin s =
     (let temp = fst (snd voisin) + fst s n
      in if sint temp < sint (fst s (fst voisin)) \<and> 0 \<le> sint temp
         then ((fst s)(fst voisin := temp), (fst (snd s))(fst voisin := n), True)
         else s)"

definition traiter :: "uint \<times> liste_arcs \<Rightarrow> etat \<Rightarrow> etat" where
  "traiter kv s =
     (if sint (fst s (fst kv)) < sint max_poids then bellmanFord_voisins (fst kv) (snd kv) s
      else s)"

text \<open>
  The distances are optimal for the walks of at most \<open>j + 1\<close> vertices (and of at most as
  many vertices as the network has): what \<open>j\<close> passes of the relaxation achieve.
\<close>

definition optimal :: "Reseau \<Rightarrow> uint \<Rightarrow> nat \<Rightarrow> (uint \<Rightarrow> uint) \<Rightarrow> bool" where
  "optimal r a j distances =
     (\<forall>p v w. marche r a p v w \<longrightarrow> length p \<le> Suc j \<longrightarrow> length p \<le> length (m_arcs r)
        \<longrightarrow> sint (distances v) \<le> w)"


section \<open>The scenario networks are constructible\<close>

lemma construire_reseau_scenario:
  "construire [1, 2, 3, 4] [(1, 2, 1, 0), (2, 3, 2, 0), (1, 3, 5, 0), (3, 4, 1, 0)]
     = Inr reseau_scenario"
  by code_simp

lemma construire_reseau_arc_negatif:
  "construire [1, 2, 3, 4] [(1, 2, 1, 0), (2, 3, - 10, 0), (1, 3, 5, 0), (3, 4, 1, 0)]
     = Inr reseau_arc_negatif"
  by code_simp

lemma construire_reseau_detour:
  "construire [1, 2, 3] [(1, 2, 20, 0), (2, 3, - 10, 0), (1, 3, 15, 0)] = Inr reseau_detour"
  by code_simp

lemma construire_reseau_arc_long:
  "construire [0, 2] [(0, 2, 10000, 0)] = Inr reseau_arc_long"
  by code_simp

lemma construire_reseau_zero_cinq: "construire [0, 5] [] = Inr reseau_zero_cinq"
  by code_simp

lemma construire_reseau_un_cinq: "construire [1, 5] [] = Inr reseau_un_cinq"
  by code_simp

lemma construire_reseau_un_six_cinq:
  "construire [1, 6, 5] [(6, 5, 1, 0)] = Inr reseau_un_six_cinq"
  by code_simp

lemma construire_reseau_singleton: "construire [1] [] = Inr reseau_singleton"
  by code_simp

lemma construire_reseau_un_arc: "construire [1, 2] [(1, 2, 7, 0)] = Inr reseau_un_arc"
  by code_simp

section \<open>Machine integers\<close>

lemma sint_max_poids: "sint max_poids = 2147483647"
  by (simp add: max_poids_def)

section \<open>Queries on absent vertices and arcs\<close>

lemma arcExiste_absent:
  "\<not> sommetExiste r a \<or> \<not> sommetExiste r b \<Longrightarrow>
     arcExiste r a b = Inl (logic_error ''arcExiste: Un des sommets n'existe pas!'')"
  by (auto simp: arcExiste_def)

lemma arcExiste_present:
  assumes "sommetExiste r a" and "sommetExiste r b"
  shows "\<exists>l. map_of (m_arcs r) a = Some l \<and> arcExiste r a b = Inr (b \<in> fst ` set l)"
proof -
  from assms(1) have "map_of (m_arcs r) a \<noteq> None"
    unfolding sommetExiste_def by (simp add: map_of_eq_None_iff)
  then obtain l where "map_of (m_arcs r) a = Some l"
    by blast
  with assms show ?thesis
    by (simp add: arcExiste_def)
qed

text \<open>
  Claim C8, as stated: \<^verbatim>\<open>arcExiste\<close> would fail when the arc it is asked about is absent. It
  does not: in the scenario network the vertices 4 and 1 exist, vertex 4 has no outgoing
  arc, and \<^verbatim>\<open>arcExiste(4,1)\<close> returns false without raising.
\<close>

theorem arcExiste_arc_absent_retourne_faux:
  "sommetExiste reseau_scenario 4 \<and> sommetExiste reseau_scenario 1 \<and>
   map_of (m_arcs reseau_scenario) 4 = Some [] \<and>
   arcExiste reseau_scenario 4 1 = Inr False"
  by code_simp

text \<open>
  Claim C8, amended. A query that names an absent vertex raises \<^verbatim>\<open>logic_error\<close> and returns
  no value: \<^verbatim>\<open>arcExiste\<close>, \<^verbatim>\<open>getCoutArc\<close> and \<^verbatim>\<open>getTypeArc\<close> raise the error of \<^verbatim>\<open>arcExiste\<close>,
  and each of the three path operations raises its own before touching the network. When
  both vertices exist, \<^verbatim>\<open>arcExiste\<close> never raises: it returns whether the destination is in
  the adjacency entry of the origin, so false for an absent arc. \<^verbatim>\<open>getCoutArc\<close> and
  \<^verbatim>\<open>getTypeArc\<close> raise \<^verbatim>\<open>logic_error\<close> whenever \<^verbatim>\<open>arcExiste\<close> answers false.
\<close>

theorem requete_absente_leve_logic_error:
  "(\<not> sommetExiste r a \<or> \<not> sommetExiste r b \<longrightarrow>
      arcExiste r a b = Inl (logic_error ''arcExiste: Un des sommets n'existe pas!'') \<and>
      getCoutArc r a b = Inl (logic_error ''arcExiste: Un des sommets n'existe pas!'') \<and>
      getTypeArc r a b = Inl (logic_error ''arcExiste: Un des sommets n'existe pas!'') \<and>
      dijkstra r a b = Some (r, Inl (logic_error ''dijkstra: Un des sommets n'existe pas!'')) \<and>
      meilleurPlusCourtChemin r a b
        = Some (r, Inl (logic_error ''dijkstra: Un des sommets n'existe pas!'')) \<and>
      bellmanFord r a b
        = Some (r, Inl (logic_error ''bellmanFord: Un des sommets n'existe pas!''))) \<and>
   (sommetExiste r c \<and> sommetExiste r d \<longrightarrow>
      (\<exists>l. map_of (m_arcs r) c = Some l \<and> arcExiste r c d = Inr (d \<in> fst ` set l))) \<and>
   (arcExiste r c d = Inr False \<longrightarrow>
      getCoutArc r c d = Inl (logic_error ''getCoutArc: arc non existant'') \<and>
      getTypeArc r c d = Inl (logic_error ''getTypeArc: arc non existant''))"
proof (intro conjI impI)
  assume h: "\<not> sommetExiste r a \<or> \<not> sommetExiste r b"
  show "arcExiste r a b = Inl (logic_error ''arcExiste: Un des sommets n'existe pas!'')"
    by (rule arcExiste_absent [OF h])
  then show "getCoutArc r a b = Inl (logic_error ''arcExiste: Un des sommets n'existe pas!'')"
    by (simp add: getCoutArc_def)
  from arcExiste_absent [OF h]
  show "getTypeArc r a b = Inl (logic_error ''arcExiste: Un des sommets n'existe pas!'')"
    by (simp add: getTypeArc_def)
  from h show "dijkstra r a b
      = Some (r, Inl (logic_error ''dijkstra: Un des sommets n'existe pas!''))"
    unfolding dijkstra_def by (simp only: if_True)
  from h show "meilleurPlusCourtChemin r a b
      = Some (r, Inl (logic_error ''dijkstra: Un des sommets n'existe pas!''))"
    unfolding meilleurPlusCourtChemin_def by (simp only: if_True)
  from h show "bellmanFord r a b
      = Some (r, Inl (logic_error ''bellmanFord: Un des sommets n'existe pas!''))"
    unfolding bellmanFord_def by (simp only: if_True)
next
  assume "sommetExiste r c \<and> sommetExiste r d"
  then show "\<exists>l. map_of (m_arcs r) c = Some l \<and> arcExiste r c d = Inr (d \<in> fst ` set l)"
    by (simp add: arcExiste_present)
next
  assume "arcExiste r c d = Inr False"
  then show "getCoutArc r c d = Inl (logic_error ''getCoutArc: arc non existant'')"
    by (simp add: getCoutArc_def)
next
  assume "arcExiste r c d = Inr False"
  then show "getTypeArc r c d = Inl (logic_error ''getTypeArc: arc non existant'')"
    by (simp add: getTypeArc_def)
qed

theorem requete_absente_leve_logic_error_witness:
  "sommetExiste reseau_scenario 1 \<and> \<not> sommetExiste reseau_scenario 7 \<and>
   sommetExiste reseau_scenario 4 \<and>
   arcExiste reseau_scenario 1 7
     = Inl (logic_error ''arcExiste: Un des sommets n'existe pas!'') \<and>
   getCoutArc reseau_scenario 1 7
     = Inl (logic_error ''arcExiste: Un des sommets n'existe pas!'') \<and>
   getTypeArc reseau_scenario 1 7
     = Inl (logic_error ''arcExiste: Un des sommets n'existe pas!'') \<and>
   dijkstra reseau_scenario 1 7
     = Some (reseau_scenario, Inl (logic_error ''dijkstra: Un des sommets n'existe pas!'')) \<and>
   meilleurPlusCourtChemin reseau_scenario 1 7
     = Some (reseau_scenario, Inl (logic_error ''dijkstra: Un des sommets n'existe pas!'')) \<and>
   bellmanFord reseau_scenario 1 7
     = Some (reseau_scenario, Inl (logic_error ''bellmanFord: Un des sommets n'existe pas!'')) \<and>
   (\<exists>l. map_of (m_arcs reseau_scenario) 4 = Some l \<and>
      arcExiste reseau_scenario 4 1 = Inr (1 \<in> fst ` set l)) \<and>
   arcExiste reseau_scenario 4 1 = Inr False \<and>
   getCoutArc reseau_scenario 4 1 = Inl (logic_error ''getCoutArc: arc non existant'') \<and>
   getTypeArc reseau_scenario 4 1 = Inl (logic_error ''getTypeArc: arc non existant'')"
proof -
  have h0: "sommetExiste reseau_scenario 1"
    by code_simp
  have h1: "\<not> sommetExiste reseau_scenario 7"
    by code_simp
  have h2: "sommetExiste reseau_scenario 4"
    by code_simp
  have h3: "arcExiste reseau_scenario 4 1 = Inr False"
    by code_simp
  show ?thesis
    using h0 h1 h2 h3 requete_absente_leve_logic_error [of reseau_scenario 1 7 4 1] by blast
qed

section \<open>The scenario of the four-vertex network\<close>

text \<open>
  Claim C5. On the network with vertices 1 to 4 and arcs 1\<rightarrow>2 (1), 2\<rightarrow>3 (2), 1\<rightarrow>3 (5),
  3\<rightarrow>4 (1), \<^verbatim>\<open>dijkstra(1,4)\<close> and \<^verbatim>\<open>bellmanFord(1,4)\<close> return the distance 4 and the path
  1, 2, 3, 4. \<^verbatim>\<open>meilleurPlusCourtChemin(1,4)\<close> returns the distance 4 too, but the path
  1, 4, 3, 2: it pushes the origin and then copies \<^verbatim>\<open>chemin_inverse\<close> front to back, where
  the two other operations copy it back to front.
\<close>

theorem scenario_chemin_non_inverse:
  "dijkstra reseau_scenario 1 4 = Some (reseau_scenario, Inr (4, [1, 2, 3, 4])) \<and>
   meilleurPlusCourtChemin reseau_scenario 1 4 = Some (reseau_scenario, Inr (4, [1, 4, 3, 2])) \<and>
   bellmanFord reseau_scenario 1 4 = Some (reseau_scenario, Inr (4, [1, 2, 3, 4]))"
  by code_simp

theorem scenario_chemin_non_inverse_witness:
  "sommetExiste reseau_scenario 1 \<and> sommetExiste reseau_scenario 4 \<and>
   meilleurPlusCourtChemin reseau_scenario 1 4 = Some (reseau_scenario, Inr (4, [1, 4, 3, 2]))"
proof -
  have "sommetExiste reseau_scenario 1 \<and> sommetExiste reseau_scenario 4"
    by code_simp
  then show ?thesis
    using scenario_chemin_non_inverse by simp
qed

section \<open>Distances above the initial heap key\<close>

text \<open>
  Claim C1. The three operations do not agree on every network with non-negative costs.
  On the network with vertices 0 and 2 and the single arc 0\<rightarrow>2 of cost 10000, \<^verbatim>\<open>dijkstra\<close>
  and \<^verbatim>\<open>bellmanFord\<close> return 10000 for (0,2), and \<^verbatim>\<open>meilleurPlusCourtChemin\<close> returns 9999:
  the key 9999 given to every heap node is below the real distance, so the arc is never
  relaxed. Its path then runs through the initial predecessor value 9999.
\<close>

theorem distances_differentes_arc_long:
  "dijkstra reseau_arc_long 0 2 = Some (reseau_arc_long, Inr (10000, [0, 2])) \<and>
   meilleurPlusCourtChemin reseau_arc_long 0 2
     = Some (reseau_arc_long, Inr (9999, [0, 2, 9999])) \<and>
   bellmanFord reseau_arc_long 0 2 = Some (reseau_arc_long, Inr (10000, [0, 2]))"
  by code_simp

theorem distances_differentes_arc_long_witness:
  "sommetExiste reseau_arc_long 0 \<and> sommetExiste reseau_arc_long 2 \<and>
   getCoutArc reseau_arc_long 0 2 = Inr 10000 \<and>
   dijkstra reseau_arc_long 0 2 = Some (reseau_arc_long, Inr (10000, [0, 2])) \<and>
   meilleurPlusCourtChemin reseau_arc_long 0 2
     = Some (reseau_arc_long, Inr (9999, [0, 2, 9999]))"
proof -
  have "sommetExiste reseau_arc_long 0 \<and> sommetExiste reseau_arc_long 2 \<and>
        getCoutArc reseau_arc_long 0 2 = Inr 10000"
    by code_simp
  then show ?thesis
    using distances_differentes_arc_long by simp
qed

section \<open>Unreachable destinations\<close>

text \<open>
  Claim C2. For an unreachable destination \<^verbatim>\<open>bellmanFord\<close> returns the largest \<^verbatim>\<open>int\<close> and
  an empty path, and so does \<^verbatim>\<open>dijkstra(1,5)\<close> on the network of the isolated vertices 1
  and 5. \<^verbatim>\<open>meilleurPlusCourtChemin\<close> does not: on the network of the isolated vertices 0 and
  5 it returns 9999 and the path 0, 5, 9999 for (0,5). \<^verbatim>\<open>dijkstra\<close> fails as well when it
  extracts an unreached vertex before the destination: with vertices 1, 6, 5 in that
  working-set order and the arc 6\<rightarrow>5 of cost 1, the sum of the cost and the largest \<^verbatim>\<open>int\<close>
  wraps, and \<^verbatim>\<open>dijkstra(1,5)\<close> returns the smallest \<^verbatim>\<open>int\<close> with the path 6, 5.
\<close>

theorem inatteignable_sans_sentinelle:
  "meilleurPlusCourtChemin reseau_zero_cinq 0 5
     = Some (reseau_zero_cinq, Inr (9999, [0, 5, 9999])) \<and>
   dijkstra reseau_zero_cinq 0 5 = Some (reseau_zero_cinq, Inr (2147483647, [])) \<and>
   bellmanFord reseau_zero_cinq 0 5 = Some (reseau_zero_cinq, Inr (2147483647, [])) \<and>
   dijkstra reseau_un_cinq 1 5 = Some (reseau_un_cinq, Inr (2147483647, [])) \<and>
   dijkstra reseau_un_six_cinq 1 5 = Some (reseau_un_six_cinq, Inr (- 2147483648, [6, 5])) \<and>
   bellmanFord reseau_un_six_cinq 1 5 = Some (reseau_un_six_cinq, Inr (2147483647, []))"
  by code_simp

theorem inatteignable_sans_sentinelle_witness:
  "sommetExiste reseau_zero_cinq 0 \<and> sommetExiste reseau_zero_cinq 5 \<and>
   arcExiste reseau_zero_cinq 0 5 = Inr False \<and>
   meilleurPlusCourtChemin reseau_zero_cinq 0 5
     = Some (reseau_zero_cinq, Inr (9999, [0, 5, 9999]))"
proof -
  have "sommetExiste reseau_zero_cinq 0 \<and> sommetExiste reseau_zero_cinq 5 \<and>
        arcExiste reseau_zero_cinq 0 5 = Inr False"
    by code_simp
  then show ?thesis
    using inatteignable_sans_sentinelle by simp
qed

section \<open>Origin equal to destination\<close>

text \<open>
  \<^verbatim>\<open>dijkstra\<close> extracts the origin first, since it alone has a distance below the largest
  \<^verbatim>\<open>int\<close>, and stops there; \<^verbatim>\<open>bellmanFord\<close> never relaxes an arc into the origin, since that
  would need a tentative distance both negative and non-negative. For every network and
  every existing vertex both return the distance 0 and an empty path.
\<close>

lemma choisir_min_unique:
  assumes "v \<in> insert debut (set q)"
    and "\<forall>x\<in>insert debut (set q). x \<noteq> v \<longrightarrow> sint (distances v) < sint (distances x)"
  shows "choisir_min distances q debut = v"
  using assms unfolding choisir_min_def
proof (induction q arbitrary: debut)
  case Nil
  then show ?case by simp
next
  case (Cons noeud q)
  let ?suite = "if sint (distances noeud) < sint (distances debut) then noeud else debut"
  have "v \<in> insert ?suite (set q)"
    using Cons.prems by (cases "noeud = v"; cases "debut = v") (auto simp: not_less)
  moreover have "\<forall>x\<in>insert ?suite (set q). x \<noteq> v \<longrightarrow> sint (distances v) < sint (distances x)"
    using Cons.prems by auto
  ultimately show ?case
    using Cons.IH [of ?suite] by simp
qed

lemma dijkstra_init_etat:
  assumes "dijkstra_init m = (d, p, q)"
  shows "set q = fst ` set m \<and> (\<forall>k. k \<in> fst ` set m \<longrightarrow> d k = max_poids \<and> p k = - 1)"
proof -
  define pas :: "uint \<times> liste_arcs \<Rightarrow> (uint \<Rightarrow> uint) \<times> (uint \<Rightarrow> uint) \<times> uint list
      \<Rightarrow> (uint \<Rightarrow> uint) \<times> (uint \<Rightarrow> uint) \<times> uint list"
    where "pas = (\<lambda>kv (distances, predecesseurs, q).
             (distances(fst kv := max_poids), predecesseurs(fst kv := - 1), inserer_ens (fst kv) q))"
  have pas: "pas kv (da, pa, qa) = (da(fst kv := max_poids), pa(fst kv := - 1), inserer_ens (fst kv) qa)"
    for kv da pa qa
    by (simp add: pas_def)
  have hors: "fold pas l (da, pa, qa) = (db, pb, qb) \<Longrightarrow> k \<notin> fst ` set l
      \<Longrightarrow> db k = da k \<and> pb k = pa k" for l da pa qa db pb qb k
  proof (induction l arbitrary: da pa qa)
    case Nil
    then show ?case by simp
  next
    case (Cons a l)
    from Cons.prems(1) have "fold pas l (da(fst a := max_poids), pa(fst a := - 1),
        inserer_ens (fst a) qa) = (db, pb, qb)"
      by (simp add: pas)
    from Cons.IH [OF this] Cons.prems(2) show ?case
      by auto
  qed
  have tout: "fold pas l (da, pa, qa) = (db, pb, qb) \<Longrightarrow>
      set qb = set qa \<union> fst ` set l \<and>
      (\<forall>k. k \<in> fst ` set l \<longrightarrow> db k = max_poids \<and> pb k = - 1)" for l da pa qa db pb qb
  proof (induction l arbitrary: da pa qa)
    case Nil
    then show ?case by simp
  next
    case (Cons a l)
    from Cons.prems have f: "fold pas l (da(fst a := max_poids), pa(fst a := - 1),
        inserer_ens (fst a) qa) = (db, pb, qb)"
      by (simp add: pas)
    from Cons.IH [OF f] have q: "set qb = set (inserer_ens (fst a) qa) \<union> fst ` set l"
      and k: "\<forall>k. k \<in> fst ` set l \<longrightarrow> db k = max_poids \<and> pb k = - 1"
      by simp_all
    have "db (fst a) = max_poids \<and> pb (fst a) = - 1"
    proof (cases "fst a \<in> fst ` set l")
      case True
      with k show ?thesis by blast
    next
      case False
      from hors [OF f False] show ?thesis by simp
    qed
    with q k show ?case
      by (auto simp: inserer_ens_def)
  qed
  from assms have "fold pas m (\<lambda>_. 0, \<lambda>_. 0, []) = (d, p, q)"
    by (simp add: dijkstra_init_def pas_def)
  from tout [OF this] show ?thesis
    by simp
qed

lemma dijkstra_origine_destination:
  assumes v: "sommetExiste r v"
  shows "dijkstra r v v = Some (r, Inr (0, []))"
proof -
  obtain d p q where i: "dijkstra_init (m_arcs r) = (d, p, q)"
    by (metis prod_cases3)
  from dijkstra_init_etat [OF i] have q: "set q = fst ` set (m_arcs r)"
    and k: "\<forall>k. k \<in> fst ` set (m_arcs r) \<longrightarrow> d k = max_poids \<and> p k = - 1"
    by simp_all
  from v q have vq: "v \<in> set q"
    by (simp add: sommetExiste_def)
  from v k have pv: "p v = - 1"
    unfolding sommetExiste_def by blast
  have b: "dijkstra_boucle n v (m_arcs r) (d(v := 0)) p q = (m_arcs r, Inr (d(v := 0), p))" for n
  proof (cases n)
    case 0
    then show ?thesis by simp
  next
    case (Suc n')
    from vq obtain debut reste where c: "q = debut # reste"
      by (cases q) auto
    have "choisir_min (d(v := 0)) q debut = v"
    proof (rule choisir_min_unique)
      from vq show "v \<in> insert debut (set q)" by simp
      show "\<forall>x\<in>insert debut (set q). x \<noteq> v \<longrightarrow> sint ((d(v := 0)) v) < sint ((d(v := 0)) x)"
      proof (intro ballI impI)
        fix x
        assume "x \<in> insert debut (set q)" and x: "x \<noteq> v"
        with c q have "x \<in> fst ` set (m_arcs r)"
          by auto
        with k have "d x = max_poids"
          by blast
        with x show "sint ((d(v := 0)) v) < sint ((d(v := 0)) x)"
          by (simp add: sint_max_poids)
      qed
    qed
    with Suc c show ?thesis by (simp add: Let_def)
  qed
  from v i b [of "nat (nbSommets r)"] pv show ?thesis
    by (simp add: dijkstra_def reconstruire_def)
qed

lemma bellmanFord_init_etat:
  assumes "bellmanFord_init m = (d, p)"
  shows "\<forall>k. k \<in> fst ` set m \<longrightarrow> d k = max_poids \<and> p k = - 1"
proof -
  define pas :: "uint \<times> liste_arcs \<Rightarrow> (uint \<Rightarrow> uint) \<times> (uint \<Rightarrow> uint)
      \<Rightarrow> (uint \<Rightarrow> uint) \<times> (uint \<Rightarrow> uint)"
    where "pas = (\<lambda>kv (distances, predecesseurs).
             (distances(fst kv := max_poids), predecesseurs(fst kv := - 1)))"
  have pas: "pas kv (da, pa) = (da(fst kv := max_poids), pa(fst kv := - 1))" for kv da pa
    by (simp add: pas_def)
  have hors: "fold pas l (da, pa) = (db, pb) \<Longrightarrow> k \<notin> fst ` set l
      \<Longrightarrow> db k = da k \<and> pb k = pa k" for l da pa db pb k
  proof (induction l arbitrary: da pa)
    case Nil
    then show ?case by simp
  next
    case (Cons a l)
    from Cons.prems(1) have "fold pas l (da(fst a := max_poids), pa(fst a := - 1)) = (db, pb)"
      by (simp add: pas)
    from Cons.IH [OF this] Cons.prems(2) show ?case
      by auto
  qed
  have tout: "fold pas l (da, pa) = (db, pb) \<Longrightarrow>
      (\<forall>k. k \<in> fst ` set l \<longrightarrow> db k = max_poids \<and> pb k = - 1)" for l da pa db pb
  proof (induction l arbitrary: da pa)
    case Nil
    then show ?case by simp
  next
    case (Cons a l)
    from Cons.prems have f: "fold pas l (da(fst a := max_poids), pa(fst a := - 1)) = (db, pb)"
      by (simp add: pas)
    from Cons.IH [OF f] have k: "\<forall>k. k \<in> fst ` set l \<longrightarrow> db k = max_poids \<and> pb k = - 1" .
    have "db (fst a) = max_poids \<and> pb (fst a) = - 1"
    proof (cases "fst a \<in> fst ` set l")
      case True
      with k show ?thesis by blast
    next
      case False
      from hors [OF f False] show ?thesis by simp
    qed
    with k show ?case
      by auto
  qed
  from assms have "fold pas m (\<lambda>_. 0, \<lambda>_. 0) = (d, p)"
    by (simp add: bellmanFord_init_def pas_def)
  from tout [OF this] show ?thesis .
qed

lemma bellmanFord_voisins_origine:
  "a_l_origine v s \<Longrightarrow> a_l_origine v (bellmanFord_voisins n arcs s)"
  unfolding bellmanFord_voisins_def
proof (induction arcs arbitrary: s)
  case Nil
  then show ?case by simp
next
  case (Cons a arcs)
  show ?case
    by (simp only: fold_simps, rule Cons.IH)
       (use Cons.prems in \<open>auto simp: case_prod_beta Let_def a_l_origine_def\<close>)
qed

lemma bellmanFord_passe_origine:
  "a_l_origine v s \<Longrightarrow> a_l_origine v (bellmanFord_passe m s)"
  unfolding bellmanFord_passe_def
proof (induction m arbitrary: s)
  case Nil
  then show ?case by simp
next
  case (Cons kv m)
  show ?case
    by (simp only: fold_simps, rule Cons.IH)
       (use Cons.prems in \<open>simp add: case_prod_beta bellmanFord_voisins_origine\<close>)
qed

lemma bellmanFord_boucle_origine:
  "d v = 0 \<Longrightarrow> p v = - 1 \<Longrightarrow> bellmanFord_boucle n m d p = (d', p') \<Longrightarrow> d' v = 0 \<and> p' v = - 1"
proof (induction n arbitrary: d p)
  case 0
  then show ?case by simp
next
  case (Suc n)
  obtain d1 p1 b1 where ps: "bellmanFord_passe m (d, p, False) = (d1, p1, b1)"
    by (metis prod_cases3)
  have "a_l_origine v (bellmanFord_passe m (d, p, False))"
    by (rule bellmanFord_passe_origine) (simp add: a_l_origine_def Suc.prems)
  with ps have o1: "d1 v = 0" "p1 v = - 1"
    by (simp_all add: a_l_origine_def)
  show ?case
  proof (cases b1)
    case True
    with Suc.prems(3) ps have "bellmanFord_boucle n m d1 p1 = (d', p')"
      by simp
    from Suc.IH [OF o1 this] show ?thesis .
  next
    case False
    with Suc.prems(3) ps o1 show ?thesis
      by simp
  qed
qed

lemma bellmanFord_origine_destination:
  assumes v: "sommetExiste r v"
  shows "bellmanFord r v v = Some (r, Inr (0, []))"
proof -
  obtain d p where i: "bellmanFord_init (m_arcs r) = (d, p)"
    by fastforce
  obtain d' p' where b: "bellmanFord_boucle (nat (nbSommets r - 1)) (m_arcs r) (d(v := 0)) p = (d', p')"
    by fastforce
  from bellmanFord_init_etat [OF i] v have "p v = - 1"
    unfolding sommetExiste_def by blast
  from bellmanFord_boucle_origine [OF _ this b] have "d' v = 0" "p' v = - 1"
    by simp_all
  with v i b show ?thesis
    by (simp add: bellmanFord_def reconstruire_def)
qed

text \<open>
  Claim C7. With origin and destination both the only vertex 1 of a network, \<^verbatim>\<open>dijkstra\<close>
  and \<^verbatim>\<open>bellmanFord\<close> return the distance 0 and an empty path; \<^verbatim>\<open>meilleurPlusCourtChemin\<close>
  returns the distance 0 and the one-vertex path 1, since the predecessor of the
  destination is the initial 9999 and not the 0 that its reachability test looks for.
\<close>

theorem origine_destination_chemin_non_vide:
  "dijkstra reseau_singleton 1 1 = Some (reseau_singleton, Inr (0, [])) \<and>
   meilleurPlusCourtChemin reseau_singleton 1 1 = Some (reseau_singleton, Inr (0, [1])) \<and>
   bellmanFord reseau_singleton 1 1 = Some (reseau_singleton, Inr (0, []))"
  by code_simp

theorem origine_destination_chemin_non_vide_witness:
  "sommetExiste reseau_singleton 1 \<and>
   meilleurPlusCourtChemin reseau_singleton 1 1 = Some (reseau_singleton, Inr (0, [1]))"
proof -
  have "sommetExiste reseau_singleton 1"
    by code_simp
  then show ?thesis
    using origine_destination_chemin_non_vide by simp
qed

section \<open>Removing a vertex\<close>

text \<open>
  Claim C3. \<^verbatim>\<open>enleverSommet\<close> removes the arcs into the vertex one by one through
  \<^verbatim>\<open>enleverArc\<close>, which decrements the arc count, and drops the arcs out of the vertex
  with its adjacency entry, which does not. On the network with vertices 1 and 2 and the
  arc 1\<rightarrow>2, removing vertex 1 leaves no arc and an arc count of 1.
\<close>

theorem enleverSommet_compte_arcs_sortants:
  "enleverSommet reseau_un_arc 1 = Inr \<lparr>nbSommets = 1, nbArcs = 1, m_arcs = [(2, [])]\<rparr> \<and>
   nombreArcs \<lparr>nbSommets = 1, nbArcs = 1, m_arcs = [(2, [])]\<rparr> = 1 \<and>
   nombre_entrees \<lparr>nbSommets = 1, nbArcs = 1, m_arcs = [(2, [])]\<rparr> = 0 \<and>
   nombreArcs reseau_un_arc = nombre_entrees reseau_un_arc"
  by code_simp


section \<open>Termination of the heap-accelerated search\<close>

text \<open>
  The reconstruction loop of \<^verbatim>\<open>meilleurPlusCourtChemin\<close> never ends once it has entered a
  set of vertex numbers that is closed under the predecessor entry and does not hold the
  origin.
\<close>

lemma mpcc_remonter_cycle:
  assumes hors: "numOrigine \<notin> S"
    and clos: "\<forall>c\<in>S. snd (sommets c) \<in> S"
    and dans: "courant \<in> S"
  shows "mpcc_remonter sommets numOrigine courant chemin_inverse = None"
proof (rule ccontr)
  assume "mpcc_remonter sommets numOrigine courant chemin_inverse \<noteq> None"
  then obtain y where y: "mpcc_remonter sommets numOrigine courant chemin_inverse = Some y"
    by auto
  have "sommets = sommets \<longrightarrow> numOrigine = numOrigine \<longrightarrow> courant \<notin> S"
  proof (rule mpcc_remonter.raw_induct
      [where P = "\<lambda>s ori c acc out. s = sommets \<longrightarrow> ori = numOrigine \<longrightarrow> c \<notin> S", OF _ y])
    fix f s ori c acc out
    assume hyp: "\<And>s ori c acc out. f s ori c acc = Some out \<Longrightarrow>
                   s = sommets \<longrightarrow> ori = numOrigine \<longrightarrow> c \<notin> S"
      and eq: "(if c \<noteq> ori then f s ori (snd (s c)) (acc @ [c]) else Some acc) = Some out"
    show "s = sommets \<longrightarrow> ori = numOrigine \<longrightarrow> c \<notin> S"
    proof (intro impI notI)
      assume s: "s = sommets" and ori: "ori = numOrigine" and c: "c \<in> S"
      from hors ori c have "c \<noteq> ori" by auto
      with eq have "f s ori (snd (s c)) (acc @ [c]) = Some out" by simp
      from hyp [OF this] s ori have "snd (s c) \<notin> S" by simp
      with clos c s show False by auto
    qed
  qed
  with dans show False by simp
qed

text \<open>
  Claim C6. \<^verbatim>\<open>meilleurPlusCourtChemin\<close> does not return for every pair of existing
  vertices. On the network of the isolated vertices 1 and 5, the call for (1,5) finds the
  predecessor 9999 for the destination, takes it for a reached vertex, and walks
  5, 9999, 0, 0, ... without meeting the origin 1: it neither returns nor raises a
  precondition violation.
\<close>

theorem meilleurPlusCourtChemin_ne_termine_pas:
  "meilleurPlusCourtChemin reseau_un_cinq 1 5 = None"
  apply (simp add: meilleurPlusCourtChemin_def reseau_un_cinq_def sommetExiste_def
      mpcc_init_def ajouterNoeud_def diminuerDistance_def getRacine_def crochets_def
      lire_def supprimerRacine_def)
  apply (rule mpcc_remonter_cycle [where S = "{5, 9999, 0}"])
    apply simp_all
  done

theorem meilleurPlusCourtChemin_ne_termine_pas_witness:
  "sommetExiste reseau_un_cinq 1 \<and> sommetExiste reseau_un_cinq 5 \<and>
   meilleurPlusCourtChemin reseau_un_cinq 1 5 = None"
proof -
  have "sommetExiste reseau_un_cinq 1 \<and> sommetExiste reseau_un_cinq 5"
    by code_simp
  then show ?thesis
    using meilleurPlusCourtChemin_ne_termine_pas by simp
qed


section \<open>Arcs of negative cost in bellmanFord\<close>

lemma bellmanFord_init_positives_aux:
  "positives (fst s) \<Longrightarrow>
   positives (fst (fold (\<lambda>kv (distances, predecesseurs).
             (distances(fst kv := max_poids), predecesseurs(fst kv := - 1))) m s))"
proof (induction m arbitrary: s)
  case Nil
  then show ?case by simp
next
  case (Cons kv m)
  show ?case
    by (simp only: fold_simps, rule Cons.IH)
       (use Cons.prems in \<open>simp add: case_prod_beta positives_def sint_max_poids\<close>)
qed

lemma bellmanFord_init_positives: "positives (fst (bellmanFord_init m))"
  unfolding bellmanFord_init_def
  by (rule bellmanFord_init_positives_aux) (simp add: positives_def)

lemma bellmanFord_voisins_positives:
  "positives (fst s) \<Longrightarrow> positives (fst (bellmanFord_voisins n arcs s))"
  unfolding bellmanFord_voisins_def
proof (induction arcs arbitrary: s)
  case Nil
  then show ?case by simp
next
  case (Cons a arcs)
  show ?case
    by (simp only: fold_simps, rule Cons.IH)
       (use Cons.prems in \<open>simp add: case_prod_beta Let_def positives_def\<close>)
qed

lemma bellmanFord_passe_positives:
  "positives (fst s) \<Longrightarrow> positives (fst (bellmanFord_passe m s))"
  unfolding bellmanFord_passe_def
proof (induction m arbitrary: s)
  case Nil
  then show ?case by simp
next
  case (Cons kv m)
  show ?case
    by (simp only: fold_simps, rule Cons.IH)
       (use Cons.prems in \<open>simp add: case_prod_beta bellmanFord_voisins_positives\<close>)
qed

lemma bellmanFord_boucle_positives:
  "positives d \<Longrightarrow> positives (fst (bellmanFord_boucle n m d p))"
proof (induction n arbitrary: d p)
  case 0
  then show ?case by simp
next
  case (Suc n)
  have "positives (fst (bellmanFord_passe m (d, p, False)))"
    by (rule bellmanFord_passe_positives) (simp add: Suc.prems)
  then show ?case
    by (auto simp: Suc.IH split: prod.splits)
qed

lemma bellmanFord_positif:
  assumes "bellmanFord r numOrigine numDest = Some (r', Inr (dist, chemin))"
  shows "0 \<le> dist"
proof -
  obtain d0 p0 where i: "bellmanFord_init (m_arcs r) = (d0, p0)"
    by fastforce
  obtain d1 p1 where b: "bellmanFord_boucle (nat (nbSommets r - 1)) (m_arcs r)
      (d0(numOrigine := 0)) p0 = (d1, p1)"
    by fastforce
  from bellmanFord_init_positives [of "m_arcs r"] i have "positives d0"
    by simp
  then have "positives (d0(numOrigine := 0))"
    by (simp add: positives_def)
  from bellmanFord_boucle_positives [OF this, of "nat (nbSommets r - 1)" "m_arcs r" p0] b
  have "positives d1"
    by simp
  moreover from assms i b have "dist = sint (d1 numDest)"
    by (auto simp: bellmanFord_def split: if_splits)
  ultimately show ?thesis
    by (simp add: positives_def)
qed

text \<open>
  Claim C4, as stated: on the four-vertex scenario with the arc 2\<rightarrow>3 of cost -10,
  \<^verbatim>\<open>bellmanFord(1,4)\<close> would return the path through the negative arc. It does not: the
  path 1, 2, 3, 4 costs -8, and \<^verbatim>\<open>bellmanFord\<close> returns 6 with the path 1, 3, 4, because the
  relaxation of 2\<rightarrow>3 gives the tentative distance -9 and the test \<^verbatim>\<open>temp >= 0\<close> rejects it.
\<close>

theorem bellmanFord_arc_negatif_rejete:
  "getCoutArc reseau_arc_negatif 2 3 = Inr (- 10) \<and>
   cout_chemin reseau_arc_negatif [1, 2, 3, 4] = Some (- 8) \<and>
   bellmanFord reseau_arc_negatif 1 4 = Some (reseau_arc_negatif, Inr (6, [1, 3, 4]))"
  by code_simp

subsection \<open>Walks and their costs\<close>

text \<open>
  On a well-formed network \<^verbatim>\<open>getCoutArc\<close> succeeds exactly on the stored arcs. Walks can be
  extended and joined, and when no walk from the origin has a negative cost, no closed walk
  that can be reached from the origin has one either, so that a walk can be replaced by one
  that visits no vertex twice and costs no more.
\<close>

lemma map_of_cle: "distinct (map fst m) \<Longrightarrow> (k, l) \<in> set m \<Longrightarrow> map_of m k = Some l"
  by simp

lemma getCoutArc_arc:
  assumes "bien_forme r"
  shows "getCoutArc r u v = Inr k \<longleftrightarrow> (\<exists>c. arc r u v c \<and> k = sint c)"
proof
  assume g: "getCoutArc r u v = Inr k"
  then have e: "arcExiste r u v = Inr True"
    by (auto simp: getCoutArc_def split: sum.splits bool.splits)
  from g e obtain a where a: "attributs r u v = Inr a" and k: "k = sint (fst a)"
    by (auto simp: getCoutArc_def split: sum.splits)
  from a obtain l where l: "map_of (m_arcs r) u = Some l" and la: "map_of l v = Some a"
    by (auto simp: attributs_def split: option.splits)
  from l have "(u, l) \<in> set (m_arcs r)"
    by (rule map_of_SomeD)
  moreover from la have "(v, a) \<in> set l"
    by (rule map_of_SomeD)
  ultimately have "arc r u v (fst a)"
    unfolding arc_def by (cases a) auto
  with k show "\<exists>c. arc r u v c \<and> k = sint c"
    by blast
next
  assume "\<exists>c. arc r u v c \<and> k = sint c"
  then obtain c l t where ul: "(u, l) \<in> set (m_arcs r)" and vc: "(v, c, t) \<in> set l"
    and k: "k = sint c"
    unfolding arc_def by blast
  from assms have dk: "distinct (map fst (m_arcs r))"
    by (simp add: bien_forme_def)
  from assms ul have "distinct (map fst (snd (u, l))) \<and>
      (\<forall>a\<in>set (snd (u, l)). fst a \<in> fst ` set (m_arcs r))"
    unfolding bien_forme_def by blast
  then have dl: "distinct (map fst l)" and "\<forall>a\<in>set l. fst a \<in> fst ` set (m_arcs r)"
    by simp_all
  with vc have vk: "v \<in> fst ` set (m_arcs r)"
    by force
  from dk ul have l: "map_of (m_arcs r) u = Some l"
    by simp
  from dl vc have la: "map_of l v = Some (c, t)"
    by simp
  from ul have uk: "u \<in> fst ` set (m_arcs r)"
    by force
  from vc have "v \<in> fst ` set l"
    by force
  with uk vk l have "arcExiste r u v = Inr True"
    by (simp add: arcExiste_def sommetExiste_def)
  with l la k show "getCoutArc r u v = Inr k"
    by (simp add: getCoutArc_def attributs_def)
qed

lemma arc_sommets:
  assumes "bien_forme r" and "arc r u v c"
  shows "u \<in> fst ` set (m_arcs r)" and "v \<in> fst ` set (m_arcs r)"
  using assms unfolding arc_def bien_forme_def by force+

lemma cout_chemin_snoc:
  "p \<noteq> [] \<Longrightarrow> cout_chemin r (p @ [v]) =
     (case cout_chemin r p of
        None \<Rightarrow> None
      | Some w \<Rightarrow> (case getCoutArc r (last p) v of Inl e \<Rightarrow> None | Inr k \<Rightarrow> Some (w + k)))"
proof (induction p)
  case Nil
  then show ?case by simp
next
  case (Cons a p)
  note IH = Cons.IH
  show ?case
  proof (cases p)
    case Nil
    then show ?thesis
      by (simp split: sum.splits)
  next
    case (Cons b q)
    with IH show ?thesis
      by (auto split: sum.splits option.splits)
  qed
qed

lemma cout_chemin_append:
  "p \<noteq> [] \<Longrightarrow> q \<noteq> [] \<Longrightarrow> last p = hd q \<Longrightarrow>
   cout_chemin r (p @ tl q) =
     (case cout_chemin r p of
        None \<Rightarrow> None
      | Some a \<Rightarrow> (case cout_chemin r q of None \<Rightarrow> None | Some b \<Rightarrow> Some (a + b)))"
proof (induction q arbitrary: p rule: rev_induct)
  case Nil
  then show ?case by simp
next
  case (snoc x q)
  show ?case
  proof (cases q)
    case Nil
    then show ?thesis
      by (simp split: option.splits)
  next
    case (Cons y ys)
    with snoc.prems have pq: "last p = hd q" and qn: "q \<noteq> []"
      by simp_all
    have t: "p @ tl (q @ [x]) = (p @ tl q) @ [x]"
      using qn by simp
    have l: "last (p @ tl q) = last q"
      using qn pq snoc.prems(1) by (cases "tl q = []") (auto simp: last_tl hd_Cons_tl Cons)
    have n: "p @ tl q \<noteq> []"
      using snoc.prems(1) by simp
    show ?thesis
      unfolding t cout_chemin_snoc [OF n] cout_chemin_snoc [OF qn] l
      using snoc.IH [OF snoc.prems(1) qn pq]
      by (auto split: option.splits sum.splits)
  qed
qed

lemma marche_un: "marche r a [a] a 0"
  by (simp add: marche_def)

lemma marche_snoc:
  assumes "marche r a p b w" and "getCoutArc r b v = Inr k"
  shows "marche r a (p @ [v]) v (w + k)"
  using assms by (simp add: marche_def cout_chemin_snoc)

lemma marche_append:
  assumes "marche r a p b w" and "marche r b q c w'"
  shows "marche r a (p @ tl q) c (w + w')"
proof -
  from assms have "cout_chemin r (p @ tl q) = Some (w + w')"
    by (simp add: marche_def cout_chemin_append)
  moreover from assms have "last (p @ tl q) = c"
    by (cases q) (auto simp: marche_def)
  ultimately show ?thesis
    using assms by (simp add: marche_def)
qed

lemma pas_de_circuit_negatif:
  assumes H1: "\<And>p v w. marche r a p v w \<Longrightarrow> 0 \<le> w"
    and p: "marche r a p v w" and q: "marche r v q v g"
  shows "0 \<le> g"
proof (rule ccontr)
  assume "\<not> 0 \<le> g"
  then have g: "g \<le> - 1"
    by simp
  have tours: "\<exists>p'. marche r a p' v (w + int k * g)" for k
  proof (induction k)
    case 0
    from p show ?case by auto
  next
    case (Suc k)
    then obtain p' where "marche r a p' v (w + int k * g)"
      by blast
    from marche_append [OF this q] show ?case
      by (auto simp: algebra_simps)
  qed
  from H1 [OF p] have w: "0 \<le> w" .
  from tours [of "nat w + 1"] obtain p' where "marche r a p' v (w + int (nat w + 1) * g)"
    by blast
  from H1 [OF this] have "0 \<le> w + (w + 1) * g"
    using w by (simp add: algebra_simps)
  moreover from g w have "(w + 1) * g \<le> (w + 1) * (- 1)"
    by (intro mult_left_mono) simp_all
  ultimately show False
    by simp
qed

lemma marche_distincte:
  assumes H1: "\<And>p v w. marche r a p v w \<Longrightarrow> 0 \<le> w"
  shows "marche r a p v w \<Longrightarrow> \<exists>p' w'. marche r a p' v w' \<and> w' \<le> w \<and> distinct p'"
proof (induction "length p" arbitrary: p w rule: less_induct)
  case less
  show ?case
  proof (cases "distinct p")
    case True
    with less.prems show ?thesis by blast
  next
    case False
    then obtain xs ys zs y where dec: "p = xs @ [y] @ ys @ [y] @ zs"
      using not_distinct_decomp by blast
    define p1 where "p1 = xs @ [y]"
    define c where "c = y # ys @ [y]"
    define p3 where "p3 = y # zs"
    have p12: "p = (p1 @ tl c) @ tl p3"
      by (simp add: dec p1_def c_def p3_def)
    have n: "p1 \<noteq> []" "c \<noteq> []" "p3 \<noteq> []" "p1 @ tl c \<noteq> []"
      by (simp_all add: p1_def c_def p3_def)
    have j: "last p1 = hd c" "last (p1 @ tl c) = hd p3"
      by (simp_all add: p1_def c_def p3_def)
    from less.prems have cp: "cout_chemin r p = Some w" and hp: "hd p = a" and lp: "last p = v"
      by (simp_all add: marche_def)
    from cp obtain w12 w3 where c12: "cout_chemin r (p1 @ tl c) = Some w12"
      and c3: "cout_chemin r p3 = Some w3" and w: "w = w12 + w3"
      unfolding p12 cout_chemin_append [OF n(4) n(3) j(2)]
      by (auto split: option.splits)
    from c12 obtain w1 g where c1: "cout_chemin r p1 = Some w1"
      and cc: "cout_chemin r c = Some g" and w12: "w12 = w1 + g"
      unfolding cout_chemin_append [OF n(1) n(2) j(1)]
      by (auto split: option.splits)
    have m1: "marche r a p1 y w1"
      using c1 hp by (cases xs) (simp_all add: marche_def p1_def dec)
    have mc: "marche r y c y g"
      using cc by (simp add: marche_def c_def)
    have m3: "marche r y p3 v w3"
      using c3 lp by (simp add: marche_def p3_def dec)
    from pas_de_circuit_negatif [OF H1 m1 mc] have g: "0 \<le> g" .
    from marche_append [OF m1 m3] have m: "marche r a (p1 @ tl p3) v (w1 + w3)" .
    have "length (p1 @ tl p3) < length p"
      by (simp add: dec p1_def p3_def)
    from less.hyps [OF this m] obtain p' w' where "marche r a p' v w'" and "w' \<le> w1 + w3"
      and "distinct p'"
      by blast
    with g w w12 show ?thesis
      by (intro exI [of _ p'] exI [of _ w']) simp
  qed
qed

lemma sint_somme_petite:
  fixes a c :: uint
  assumes "0 \<le> sint c + sint a" and "sint c + sint a < 2147483648"
  shows "sint (c + a) = sint c + sint a"
proof -
  have "sint (c + a) = signed_take_bit (LENGTH(32) - 1) (sint c + sint a)"
    by (rule sint_word_ariths)
  also have "\<dots> = sint c + sint a"
    by (rule signed_take_bit_int_eq_self) (use assms in simp_all)
  finally show ?thesis .
qed

lemma sint_somme_exacte:
  fixes a c :: uint
  assumes a: "0 \<le> sint a" and s: "0 \<le> sint (c + a)"
  shows "sint (c + a) = sint c + sint a"
proof (cases "sint c + sint a < 2147483648")
  case True
  have "- 2147483648 \<le> sint c"
    using sint_ge [of c] by simp
  show ?thesis
  proof (cases "0 \<le> sint c + sint a")
    case True
    from this \<open>sint c + sint a < 2147483648\<close> show ?thesis
      by (rule sint_somme_petite)
  next
    case False
    have "sint (c + a) = signed_take_bit (LENGTH(32) - 1) (sint c + sint a)"
      by (rule sint_word_ariths)
    also have "\<dots> = sint c + sint a"
      by (rule signed_take_bit_int_eq_self)
         (use a \<open>- 2147483648 \<le> sint c\<close> True in simp_all)
    finally show ?thesis .
  qed
next
  case False
  have "sint (c + a) = signed_take_bit (LENGTH(32) - 1) (sint c + sint a)"
    by (rule sint_word_ariths)
  also have "\<dots> \<le> sint c + sint a - 2 ^ Suc (LENGTH(32) - 1)"
    by (rule signed_take_bit_int_less_eq) (use False in simp)
  finally have "sint (c + a) \<le> sint c + sint a - 4294967296"
    by simp
  moreover have "sint c < 2147483648" "sint a < 2147483648"
    using sint_lt [of c] sint_lt [of a] by simp_all
  ultimately show ?thesis
    using s by simp
qed

subsection \<open>The relaxation keeps the invariant\<close>

lemma voisins_fold: "bellmanFord_voisins n arcs = fold (relacher n) arcs"
proof -
  have "(\<lambda>voisin (distances, predecesseurs, estInstable).
             (let temp = fst (snd voisin) + distances n
              in if sint temp < sint (distances (fst voisin)) \<and> 0 \<le> sint temp
                 then (distances(fst voisin := temp),
                       predecesseurs(fst voisin := n), True)
                 else (distances, predecesseurs, estInstable))) = relacher n"
    by (intro ext) (simp add: relacher_def Let_def split: prod.splits)
  then show ?thesis
    by (simp add: bellmanFord_voisins_def)
qed

lemma passe_fold: "bellmanFord_passe m = fold traiter m"
proof -
  have "(\<lambda>kv (distances, predecesseurs, estInstable).
             if sint (distances (fst kv)) < sint max_poids
             then bellmanFord_voisins (fst kv) (snd kv) (distances, predecesseurs, estInstable)
             else (distances, predecesseurs, estInstable)) = traiter"
    by (intro ext) (simp add: traiter_def split: prod.splits)
  then show ?thesis
    by (simp add: bellmanFord_passe_def)
qed

lemma chaine_pred:
  assumes inv: "inv_bf r a d p" and bf: "bien_forme r"
  shows "(x, y) \<in> (relation_pred r p)\<^sup>* \<Longrightarrow> \<exists>q w. marche r x q y w \<and> sint (d x) + w \<le> sint (d y)"
proof (induction rule: rtrancl_induct)
  case base
  have "marche r x [x] x 0"
    by (rule marche_un)
  then show ?case
    by force
next
  case (step y z)
  then obtain q w where q: "marche r x q y w" and le: "sint (d x) + w \<le> sint (d y)"
    by blast
  from step.hyps(2) have z: "z \<in> fst ` set (m_arcs r)" and y: "y = p z" and "p z \<noteq> - 1"
    by (auto simp: relation_pred_def)
  with inv obtain c where c: "arc r y z c" and lc: "sint (d y) + sint c \<le> sint (d z)"
    unfolding inv_bf_def by blast
  from c bf have "getCoutArc r y z = Inr (sint c)"
    by (auto simp: getCoutArc_arc)
  from marche_snoc [OF q this] le lc show ?case
    by (intro exI [of _ "q @ [z]"] exI [of _ "w + sint c"]) simp
qed

lemma relacher_inv:
  assumes ctx: "contexte r a" and inv: "inv_bf r a d p"
    and arc: "arc r n v c" and fin: "sint (d n) < 2147483647"
    and lt: "sint (c + d n) < sint (d v)" and pos: "0 \<le> sint (c + d n)"
  shows "inv_bf r a (d(v := c + d n)) (p(v := n))"
proof -
  let ?K = "fst ` set (m_arcs r)"
  let ?d = "d(v := c + d n)"
  let ?p = "p(v := n)"
  from ctx have bf: "bien_forme r" and m1: "- 1 \<notin> ?K"
    and H1: "\<And>q x w. marche r a q x w \<Longrightarrow> 0 \<le> w"
    by (auto simp: contexte_def sommetExiste_def)
  from inv have da: "d a = 0" and pa: "p a = - 1" and dpos: "positives d"
    and P5: "\<And>x. x \<in> ?K \<Longrightarrow> sint (d x) < 2147483647 \<Longrightarrow> \<exists>q. marche r a q x (sint (d x))"
    and P2: "\<And>x. x \<in> ?K \<Longrightarrow> p x \<noteq> - 1 \<Longrightarrow>
        p x \<in> ?K \<and> sint (d (p x)) < 2147483647 \<and> sint (d x) < 2147483647 \<and>
        (\<exists>c. arc r (p x) x c \<and> sint (d (p x)) + sint c \<le> sint (d x))"
    and P3: "\<And>x. x \<in> ?K \<Longrightarrow> x \<noteq> a \<Longrightarrow> sint (d x) < 2147483647 \<Longrightarrow> p x \<noteq> - 1"
    and ac: "acyclic (relation_pred r p)"
    unfolding inv_bf_def by blast+
  from arc_sommets [OF bf arc] have nk: "n \<in> ?K" and vk: "v \<in> ?K" .
  from dpos have dn0: "0 \<le> sint (d n)"
    by (simp add: positives_def)
  from sint_somme_exacte [OF dn0 pos] have ex: "sint (c + d n) = sint c + sint (d n)" .
  have va: "v \<noteq> a"
    using da lt pos by auto
  from nk m1 have nm: "n \<noteq> - 1"
    by blast
  from P5 [OF nk fin] obtain pn where pn: "marche r a pn n (sint (d n))"
    by blast
  from arc bf have g: "getCoutArc r n v = Inr (sint c)"
    by (auto simp: getCoutArc_arc)
  from marche_snoc [OF pn g] have wv: "marche r a (pn @ [v]) v (sint (d n) + sint c)" .
  have dvM: "sint (c + d n) < 2147483647"
    using lt sint_lt [of "d v"] by simp
  have decr: "sint (?d x) \<le> sint (d x)" for x
    using lt by simp
  have h1: "?d a = 0"
    using va da by simp
  have h2: "?p a = - 1"
    using va pa by simp
  have h3: "positives ?d"
    using dpos pos by (simp add: positives_def)
  have h4: "\<forall>x. x \<in> ?K \<longrightarrow> sint (?d x) < 2147483647 \<longrightarrow> (\<exists>q. marche r a q x (sint (?d x)))"
  proof (intro allI impI)
    fix x
    assume x: "x \<in> ?K" and f: "sint (?d x) < 2147483647"
    show "\<exists>q. marche r a q x (sint (?d x))"
    proof (cases "x = v")
      case True
      with wv ex show ?thesis
        by (auto simp: add.commute)
    next
      case False
      with P5 [OF x] f show ?thesis
        by simp
    qed
  qed
  have h5: "\<forall>x. x \<in> ?K \<longrightarrow> ?p x \<noteq> - 1 \<longrightarrow>
      ?p x \<in> ?K \<and> sint (?d (?p x)) < 2147483647 \<and> sint (?d x) < 2147483647 \<and>
      (\<exists>c. arc r (?p x) x c \<and> sint (?d (?p x)) + sint c \<le> sint (?d x))"
  proof (intro allI impI)
    fix x
    assume x: "x \<in> ?K" and px: "?p x \<noteq> - 1"
    show "?p x \<in> ?K \<and> sint (?d (?p x)) < 2147483647 \<and> sint (?d x) < 2147483647 \<and>
      (\<exists>c. arc r (?p x) x c \<and> sint (?d (?p x)) + sint c \<le> sint (?d x))"
    proof (cases "x = v")
      case True
      have "sint (?d n) < 2147483647"
        using decr [of n] fin by simp
      moreover have "sint (?d n) + sint c \<le> sint (?d v)"
        using ex decr [of n] by simp
      ultimately show ?thesis
        using True nk dvM arc by auto
    next
      case False
      with px have "p x \<noteq> - 1"
        by simp
      from P2 [OF x this] obtain c' where u: "p x \<in> ?K" and du: "sint (d (p x)) < 2147483647"
        and dx: "sint (d x) < 2147483647" and a': "arc r (p x) x c'"
        and le: "sint (d (p x)) + sint c' \<le> sint (d x)"
        by blast
      have "sint (?d (p x)) < 2147483647"
        using decr [of "p x"] du by simp
      moreover have "sint (?d (p x)) + sint c' \<le> sint (?d x)"
        using decr [of "p x"] le False by simp
      ultimately show ?thesis
        using False u dx a' by auto
    qed
  qed
  have h6: "\<forall>x. x \<in> ?K \<longrightarrow> x \<noteq> a \<longrightarrow> sint (?d x) < 2147483647 \<longrightarrow> ?p x \<noteq> - 1"
    using P3 nm by simp
  have h7: "acyclic (relation_pred r ?p)"
  proof -
    have "(v, n) \<notin> (relation_pred r p)\<^sup>*"
    proof
      assume "(v, n) \<in> (relation_pred r p)\<^sup>*"
      from chaine_pred [OF inv bf this] obtain q w where q: "marche r v q n w"
        and le: "sint (d v) + w \<le> sint (d n)"
        by blast
      from marche_snoc [OF q g] have "marche r v (q @ [v]) v (w + sint c)" .
      from pas_de_circuit_negatif [OF H1 wv this] have "0 \<le> w + sint c" .
      with le lt ex show False
        by simp
    qed
    with ac have "acyclic (insert (n, v) (relation_pred r p))"
      by simp
    moreover have "relation_pred r ?p \<subseteq> insert (n, v) (relation_pred r p)"
      by (auto simp: relation_pred_def)
    ultimately show ?thesis
      by (rule acyclic_subset)
  qed
  show ?thesis
    unfolding inv_bf_def using h1 h2 h3 h4 h5 h6 h7 by (intro conjI)
qed

lemma relacher_pas:
  assumes ctx: "contexte r a" and inv: "inv_bf r a (fst s) (fst (snd s))"
    and arc: "arc r n (fst v) (fst (snd v))" and fin: "sint (fst s n) < 2147483647"
  shows "inv_bf r a (fst (relacher n v s)) (fst (snd (relacher n v s))) \<and>
         (\<forall>x. sint (fst (relacher n v s) x) \<le> sint (fst s x)) \<and>
         sint (fst (relacher n v s) (fst v)) \<le> sint (fst s n) + sint (fst (snd v))"
proof (cases "sint (fst (snd v) + fst s n) < sint (fst s (fst v)) \<and> 0 \<le> sint (fst (snd v) + fst s n)")
  case True
  then have lt: "sint (fst (snd v) + fst s n) < sint (fst s (fst v))"
    and pos: "0 \<le> sint (fst (snd v) + fst s n)"
    by simp_all
  from True have r: "relacher n v s =
      ((fst s)(fst v := fst (snd v) + fst s n), (fst (snd s))(fst v := n), True)"
    by (simp add: relacher_def Let_def)
  from inv have "0 \<le> sint (fst s n)"
    by (simp add: inv_bf_def positives_def)
  from sint_somme_exacte [OF this pos]
  have ex: "sint (fst (snd v) + fst s n) = sint (fst (snd v)) + sint (fst s n)" .
  from relacher_inv [OF ctx inv arc fin lt pos] r lt ex show ?thesis
    by simp
next
  case False
  then have r: "relacher n v s = s"
    unfolding relacher_def Let_def by (rule if_not_P)
  from ctx have bf: "bien_forme r" and H1: "\<And>q x w. marche r a q x w \<Longrightarrow> 0 \<le> w"
    by (auto simp: contexte_def)
  from arc_sommets [OF bf arc] have nk: "n \<in> fst ` set (m_arcs r)" by simp
  with inv fin obtain pn where pn: "marche r a pn n (sint (fst s n))"
    unfolding inv_bf_def by blast
  from arc bf have "getCoutArc r n (fst v) = Inr (sint (fst (snd v)))"
    by (auto simp: getCoutArc_arc)
  from H1 [OF marche_snoc [OF pn this]] have t0: "0 \<le> sint (fst (snd v)) + sint (fst s n)"
    by (simp add: add.commute)
  have "sint (fst s (fst v)) \<le> sint (fst s n) + sint (fst (snd v))"
  proof (cases "sint (fst (snd v)) + sint (fst s n) < 2147483648")
    case True
    from sint_somme_petite [OF t0 True] False t0 show ?thesis
      by simp
  next
    case False
    with sint_lt [of "fst s (fst v)"] show ?thesis
      by simp
  qed
  with r inv show ?thesis
    by simp
qed

lemma voisins_inv:
  assumes ctx: "contexte r a"
  shows "inv_bf r a (fst s) (fst (snd s)) \<Longrightarrow> sint (fst s n) < 2147483647 \<Longrightarrow>
    \<forall>v\<in>set arcs. arc r n (fst v) (fst (snd v)) \<Longrightarrow>
    inv_bf r a (fst (fold (relacher n) arcs s)) (fst (snd (fold (relacher n) arcs s))) \<and>
    (\<forall>x. sint (fst (fold (relacher n) arcs s) x) \<le> sint (fst s x)) \<and>
    (\<forall>v\<in>set arcs. sint (fst (fold (relacher n) arcs s) (fst v))
        \<le> sint (fst s n) + sint (fst (snd v)))"
proof (induction arcs arbitrary: s)
  case Nil
  then show ?case by simp
next
  case (Cons v arcs)
  let ?s1 = "relacher n v s"
  let ?s2 = "fold (relacher n) arcs ?s1"
  from Cons.prems(3) have av: "arc r n (fst v) (fst (snd v))"
    and ar: "\<forall>v\<in>set arcs. arc r n (fst v) (fst (snd v))"
    by simp_all
  from relacher_pas [OF ctx Cons.prems(1) av Cons.prems(2)]
  have i1: "inv_bf r a (fst ?s1) (fst (snd ?s1))"
    and d1: "\<And>x. sint (fst ?s1 x) \<le> sint (fst s x)"
    and b1: "sint (fst ?s1 (fst v)) \<le> sint (fst s n) + sint (fst (snd v))"
    by blast+
  from d1 [of n] Cons.prems(2) have f1: "sint (fst ?s1 n) < 2147483647"
    by simp
  from Cons.IH [OF i1 f1 ar]
  have i2: "inv_bf r a (fst ?s2) (fst (snd ?s2))"
    and d2: "\<And>x. sint (fst ?s2 x) \<le> sint (fst ?s1 x)"
    and b2: "\<And>v'. v' \<in> set arcs \<Longrightarrow> sint (fst ?s2 (fst v')) \<le> sint (fst ?s1 n) + sint (fst (snd v'))"
    by blast+
  have "sint (fst ?s2 x) \<le> sint (fst s x)" for x
    using d1 [of x] d2 [of x] by simp
  moreover have "sint (fst ?s2 (fst v')) \<le> sint (fst s n) + sint (fst (snd v'))"
    if "v' \<in> set (v # arcs)" for v'
  proof (cases "v' = v")
    case True
    with b1 d2 [of "fst v"] show ?thesis by simp
  next
    case False
    with that have "v' \<in> set arcs" by simp
    from b2 [OF this] d1 [of n] show ?thesis by simp
  qed
  ultimately show ?case
    using i2 by simp
qed

lemma traiter_inv:
  assumes ctx: "contexte r a" and inv: "inv_bf r a (fst s) (fst (snd s))"
    and kv: "kv \<in> set (m_arcs r)"
  shows "inv_bf r a (fst (traiter kv s)) (fst (snd (traiter kv s))) \<and>
    (\<forall>x. sint (fst (traiter kv s) x) \<le> sint (fst s x)) \<and>
    (\<forall>v\<in>set (snd kv). \<forall>A. sint (fst s (fst kv)) \<le> A \<longrightarrow> A < 2147483647 \<longrightarrow>
        sint (fst (traiter kv s) (fst v)) \<le> A + sint (fst (snd v)))"
proof (cases "sint (fst s (fst kv)) < 2147483647")
  case True
  have arcs: "\<forall>v\<in>set (snd kv). arc r (fst kv) (fst v) (fst (snd v))"
  proof
    fix v
    assume "v \<in> set (snd kv)"
    with kv have "(fst kv, snd kv) \<in> set (m_arcs r)" and "(fst v, fst (snd v), snd (snd v)) \<in> set (snd kv)"
      by simp_all
    then show "arc r (fst kv) (fst v) (fst (snd v))"
      unfolding arc_def by blast
  qed
  from True have t: "traiter kv s = fold (relacher (fst kv)) (snd kv) s"
    by (simp add: traiter_def sint_max_poids voisins_fold)
  from voisins_inv [OF ctx inv True arcs] show ?thesis
    unfolding t by fastforce
next
  case False
  then have "traiter kv s = s"
    by (simp add: traiter_def sint_max_poids)
  with inv False show ?thesis
    by auto
qed

lemma passe_inv:
  assumes ctx: "contexte r a"
  shows "inv_bf r a (fst s) (fst (snd s)) \<Longrightarrow> set ms \<subseteq> set (m_arcs r) \<Longrightarrow>
    inv_bf r a (fst (fold traiter ms s)) (fst (snd (fold traiter ms s))) \<and>
    (\<forall>x. sint (fst (fold traiter ms s) x) \<le> sint (fst s x)) \<and>
    (\<forall>kv\<in>set ms. \<forall>v\<in>set (snd kv). \<forall>A. sint (fst s (fst kv)) \<le> A \<longrightarrow> A < 2147483647 \<longrightarrow>
        sint (fst (fold traiter ms s) (fst v)) \<le> A + sint (fst (snd v)))"
proof (induction ms arbitrary: s)
  case Nil
  then show ?case by simp
next
  case (Cons kv ms)
  let ?s1 = "traiter kv s"
  let ?s2 = "fold traiter ms ?s1"
  from Cons.prems(2) have kv: "kv \<in> set (m_arcs r)" and ms: "set ms \<subseteq> set (m_arcs r)"
    by simp_all
  from traiter_inv [OF ctx Cons.prems(1) kv]
  have i1: "inv_bf r a (fst ?s1) (fst (snd ?s1))"
    and d1: "\<And>x. sint (fst ?s1 x) \<le> sint (fst s x)"
    and b1: "\<And>v A. v \<in> set (snd kv) \<Longrightarrow> sint (fst s (fst kv)) \<le> A \<Longrightarrow> A < 2147483647 \<Longrightarrow>
        sint (fst ?s1 (fst v)) \<le> A + sint (fst (snd v))"
    by blast+
  from Cons.IH [OF i1 ms]
  have i2: "inv_bf r a (fst ?s2) (fst (snd ?s2))"
    and d2: "\<And>x. sint (fst ?s2 x) \<le> sint (fst ?s1 x)"
    and b2: "\<And>kv' v A. kv' \<in> set ms \<Longrightarrow> v \<in> set (snd kv') \<Longrightarrow> sint (fst ?s1 (fst kv')) \<le> A \<Longrightarrow>
        A < 2147483647 \<Longrightarrow> sint (fst ?s2 (fst v)) \<le> A + sint (fst (snd v))"
    by blast+
  have "sint (fst ?s2 x) \<le> sint (fst s x)" for x
    using d1 [of x] d2 [of x] by simp
  moreover have "sint (fst ?s2 (fst v)) \<le> A + sint (fst (snd v))"
    if "kv' \<in> set (kv # ms)" and v: "v \<in> set (snd kv')" and A: "sint (fst s (fst kv')) \<le> A"
      and AM: "A < 2147483647" for kv' v A
  proof (cases "kv' = kv")
    case True
    from b1 [of v A] v A AM True d2 [of "fst v"] show ?thesis
      by simp
  next
    case False
    with that have "kv' \<in> set ms" by simp
    from b2 [OF this v _ AM] d1 [of "fst kv'"] A show ?thesis
      by simp
  qed
  ultimately show ?case
    using i2 by simp
qed

subsection \<open>The passes reach the optimum\<close>

text \<open>
  A pass that changes nothing leaves \<^verbatim>\<open>estInstable\<close> false and ends the loop; every further
  pass would change nothing either, so the early exit loses nothing.
\<close>

lemma relacher_stable: "\<not> snd (snd (relacher n v s)) \<Longrightarrow> relacher n v s = s"
  by (auto simp: relacher_def Let_def split: if_splits)

lemma voisins_stable: "\<not> snd (snd (fold (relacher n) arcs s)) \<Longrightarrow> fold (relacher n) arcs s = s"
proof (induction arcs arbitrary: s)
  case Nil
  then show ?case by simp
next
  case (Cons v arcs)
  from Cons.prems have f: "\<not> snd (snd (fold (relacher n) arcs (relacher n v s)))"
    by simp
  from Cons.IH [OF f] have e: "fold (relacher n) arcs (relacher n v s) = relacher n v s" .
  with f have "\<not> snd (snd (relacher n v s))"
    by simp
  from relacher_stable [OF this] e show ?case
    by simp
qed

lemma traiter_stable:
  assumes "\<not> snd (snd (traiter kv s))"
  shows "traiter kv s = s"
proof (cases "sint (fst s (fst kv)) < sint max_poids")
  case True
  with assms have "\<not> snd (snd (fold (relacher (fst kv)) (snd kv) s))"
    by (simp add: traiter_def voisins_fold)
  from voisins_stable [OF this] True show ?thesis
    by (simp add: traiter_def voisins_fold)
next
  case False
  then show ?thesis
    by (simp add: traiter_def)
qed

lemma passe_stable: "\<not> snd (snd (fold traiter ms s)) \<Longrightarrow> fold traiter ms s = s"
proof (induction ms arbitrary: s)
  case Nil
  then show ?case by simp
next
  case (Cons kv ms)
  from Cons.prems have f: "\<not> snd (snd (fold traiter ms (traiter kv s)))"
    by simp
  from Cons.IH [OF f] have e: "fold traiter ms (traiter kv s) = traiter kv s" .
  with f have "\<not> snd (snd (traiter kv s))"
    by simp
  from traiter_stable [OF this] e show ?case
    by simp
qed

lemma optimal_passe:
  assumes ctx: "contexte r a"
    and H2: "\<And>q v w. marche r a q v w \<Longrightarrow> length q \<le> length (m_arcs r) \<Longrightarrow> w < 2147483647"
    and inv: "inv_bf r a d p" and opt: "optimal r a j d"
    and pas: "bellmanFord_passe (m_arcs r) (d, p, b) = (d', p', b')"
  shows "inv_bf r a d' p' \<and> optimal r a (Suc j) d'"
proof -
  from ctx have bf: "bien_forme r"
    by (simp add: contexte_def)
  from pas have f: "fold traiter (m_arcs r) (d, p, b) = (d', p', b')"
    by (simp add: passe_fold)
  from passe_inv [OF ctx, of "(d, p, b)" "m_arcs r"] inv f
  have i: "inv_bf r a d' p'"
    and dec: "\<And>x. sint (d' x) \<le> sint (d x)"
    and b: "\<And>kv v A. kv \<in> set (m_arcs r) \<Longrightarrow> v \<in> set (snd kv) \<Longrightarrow> sint (d (fst kv)) \<le> A \<Longrightarrow>
        A < 2147483647 \<Longrightarrow> sint (d' (fst v)) \<le> A + sint (fst (snd v))"
    by auto
  have "sint (d' v) \<le> w"
    if q: "marche r a q v w" and l1: "length q \<le> Suc (Suc j)" and l2: "length q \<le> length (m_arcs r)"
    for q v w
  proof (cases "length q \<le> Suc j")
    case True
    with opt q l2 have "sint (d v) \<le> w"
      unfolding optimal_def by blast
    with dec [of v] show ?thesis by simp
  next
    case False
    with l1 have lq: "length q = Suc (Suc j)"
      by simp
    from q have qn: "q \<noteq> []" and hq: "hd q = a" and lv: "last q = v" and cq: "cout_chemin r q = Some w"
      by (simp_all add: marche_def)
    define q' where "q' = butlast q"
    from append_butlast_last_id [OF qn] lv have dq: "q = q' @ [v]"
      by (simp add: q'_def)
    from lq have n': "q' \<noteq> []"
      by (auto simp: q'_def dest: arg_cong [where f = length])
    from cq obtain w' k where c': "cout_chemin r q' = Some w'"
      and g: "getCoutArc r (last q') v = Inr k" and w: "w = w' + k"
      unfolding dq cout_chemin_snoc [OF n']
      by (auto split: option.splits sum.splits)
    from hq n' have "hd q' = a"
      by (simp add: dq)
    with n' c' have m': "marche r a q' (last q') w'"
      by (simp add: marche_def)
    have ll: "length q' \<le> Suc j" "length q' \<le> length (m_arcs r)"
      using lq l2 by (simp_all add: q'_def)
    from opt m' ll have du: "sint (d (last q')) \<le> w'"
      unfolding optimal_def by blast
    from H2 [OF m' ll(2)] have wM: "w' < 2147483647" .
    from g bf obtain c where c: "arc r (last q') v c" and k: "k = sint c"
      by (auto simp: getCoutArc_arc)
    from c obtain l t where ul: "(last q', l) \<in> set (m_arcs r)" and vl: "(v, c, t) \<in> set l"
      unfolding arc_def by blast
    from b [OF ul, of "(v, c, t)" w'] vl du wM have "sint (d' v) \<le> w' + sint c"
      by simp
    with w k show ?thesis by simp
  qed
  then have "optimal r a (Suc j) d'"
    unfolding optimal_def by blast
  with i show ?thesis by simp
qed

lemma optimal_stable:
  assumes ctx: "contexte r a"
    and H2: "\<And>q v w. marche r a q v w \<Longrightarrow> length q \<le> length (m_arcs r) \<Longrightarrow> w < 2147483647"
    and inv: "inv_bf r a d p" and opt: "optimal r a j d"
    and pas: "bellmanFord_passe (m_arcs r) (d, p, False) = (d, p, False)"
  shows "optimal r a (j + i) d"
proof (induction i)
  case 0
  from opt show ?case by simp
next
  case (Suc i)
  from optimal_passe [OF ctx H2 inv Suc pas] show ?case
    by simp
qed

lemma boucle_inv:
  assumes ctx: "contexte r a"
    and H2: "\<And>q v w. marche r a q v w \<Longrightarrow> length q \<le> length (m_arcs r) \<Longrightarrow> w < 2147483647"
  shows "inv_bf r a d p \<Longrightarrow> optimal r a j d \<Longrightarrow>
    bellmanFord_boucle n (m_arcs r) d p = (d', p') \<Longrightarrow>
    inv_bf r a d' p' \<and> optimal r a (j + n) d'"
proof (induction n arbitrary: d p j)
  case 0
  then show ?case by simp
next
  case (Suc n)
  obtain d1 p1 b1 where pas: "bellmanFord_passe (m_arcs r) (d, p, False) = (d1, p1, b1)"
    by (metis prod_cases3)
  from optimal_passe [OF ctx H2 Suc.prems(1,2) pas]
  have i1: "inv_bf r a d1 p1" and o1: "optimal r a (Suc j) d1"
    by simp_all
  show ?case
  proof (cases b1)
    case True
    with Suc.prems(3) pas have "bellmanFord_boucle n (m_arcs r) d1 p1 = (d', p')"
      by simp
    from Suc.IH [OF i1 o1 this] show ?thesis
      by simp
  next
    case False
    with Suc.prems(3) pas have e: "d' = d1" "p' = p1"
      by simp_all
    from pas False have "\<not> snd (snd (fold traiter (m_arcs r) (d, p, False)))"
      by (simp add: passe_fold)
    from passe_stable [OF this] pas have s: "d1 = d" "p1 = p"
      by (simp_all add: passe_fold)
    with pas False have "bellmanFord_passe (m_arcs r) (d, p, False) = (d, p, False)"
      by simp
    from optimal_stable [where i = "Suc n", OF ctx H2 Suc.prems(1,2) this] e s Suc.prems(1)
    show ?thesis by simp
  qed
qed

lemma init_inv:
  assumes ctx: "contexte r a" and i: "bellmanFord_init (m_arcs r) = (d, p)"
  shows "inv_bf r a (d(a := 0)) p \<and> optimal r a 0 (d(a := 0))"
proof -
  let ?K = "fst ` set (m_arcs r)"
  from ctx have ak: "a \<in> ?K" and H1: "\<And>q x w. marche r a q x w \<Longrightarrow> 0 \<le> w"
    by (auto simp: contexte_def sommetExiste_def)
  from bellmanFord_init_etat [OF i] have e: "\<And>k. k \<in> ?K \<Longrightarrow> d k = max_poids \<and> p k = - 1"
    by blast
  from bellmanFord_init_positives [of "m_arcs r"] i have pos: "positives d"
    by simp
  have h1: "(d(a := 0)) a = 0" by simp
  have h2: "p a = - 1" using e [OF ak] by simp
  have h3: "positives (d(a := 0))"
    using pos by (simp add: positives_def)
  have h4: "\<forall>v. v \<in> ?K \<longrightarrow> sint ((d(a := 0)) v) < 2147483647 \<longrightarrow>
      (\<exists>q. marche r a q v (sint ((d(a := 0)) v)))"
  proof (intro allI impI)
    fix v
    assume v: "v \<in> ?K" and f: "sint ((d(a := 0)) v) < 2147483647"
    show "\<exists>q. marche r a q v (sint ((d(a := 0)) v))"
    proof (cases "v = a")
      case True
      with marche_un [of r a] show ?thesis
        by auto
    next
      case False
      with e [OF v] f show ?thesis
        by (simp add: sint_max_poids)
    qed
  qed
  have h5: "\<forall>v. v \<in> ?K \<longrightarrow> p v \<noteq> - 1 \<longrightarrow>
      p v \<in> ?K \<and> sint ((d(a := 0)) (p v)) < 2147483647 \<and> sint ((d(a := 0)) v) < 2147483647 \<and>
      (\<exists>c. arc r (p v) v c \<and> sint ((d(a := 0)) (p v)) + sint c \<le> sint ((d(a := 0)) v))"
    using e by blast
  have h6: "\<forall>v. v \<in> ?K \<longrightarrow> v \<noteq> a \<longrightarrow> sint ((d(a := 0)) v) < 2147483647 \<longrightarrow> p v \<noteq> - 1"
    using e by (auto simp: sint_max_poids)
  have "relation_pred r p = {}"
    using e by (auto simp: relation_pred_def)
  then have h7: "acyclic (relation_pred r p)"
    by (simp add: acyclic_def)
  have inv: "inv_bf r a (d(a := 0)) p"
    unfolding inv_bf_def using h1 h2 h3 h4 h5 h6 h7 by (intro conjI)
  have "sint ((d(a := 0)) v) \<le> w" if q: "marche r a q v w" and l: "length q \<le> Suc 0" for q v w
  proof -
    from q l have "q = [a]"
      by (cases q) (auto simp: marche_def)
    with q show ?thesis
      by (simp add: marche_def)
  qed
  then have "optimal r a 0 (d(a := 0))"
    unfolding optimal_def by blast
  with inv show ?thesis by simp
qed

subsection \<open>The reconstructed path\<close>

text \<open>
  The predecessors form no cycle and the vertices are finitely many, so the loop that walks
  from the destination back to the origin ends, and what it has collected is a walk.
\<close>

lemma cout_sommets:
  assumes bf: "bien_forme r"
  shows "cout_chemin r (x # p) = Some w \<Longrightarrow> x \<in> fst ` set (m_arcs r) \<Longrightarrow>
    set (x # p) \<subseteq> fst ` set (m_arcs r)"
proof (induction p arbitrary: x w)
  case Nil
  then show ?case by simp
next
  case (Cons y p)
  from Cons.prems(1) obtain k w' where g: "getCoutArc r x y = Inr k"
    and c: "cout_chemin r (y # p) = Some w'"
    by (auto split: sum.splits)
  from g bf obtain c' where "arc r x y c'"
    by (auto simp: getCoutArc_arc)
  from arc_sommets(2) [OF bf this] have "y \<in> fst ` set (m_arcs r)" .
  from Cons.IH [OF c this] Cons.prems(2) show ?case
    by simp
qed

lemma marche_sommets:
  assumes bf: "bien_forme r" and a: "a \<in> fst ` set (m_arcs r)" and m: "marche r a p v w"
  shows "set p \<subseteq> fst ` set (m_arcs r)"
proof -
  from m obtain x q where p: "p = x # q"
    by (cases p) (auto simp: marche_def)
  with m have x: "x = a" and c: "cout_chemin r (x # q) = Some w"
    by (auto simp: marche_def)
  from a x have "x \<in> fst ` set (m_arcs r)"
    by simp
  from cout_sommets [OF bf c this] p show ?thesis
    by simp
qed

lemma longueur_distincte:
  assumes d: "distinct p" and s: "set p \<subseteq> fst ` set m"
  shows "length p \<le> length m"
proof -
  from d have "length p = card (set p)"
    by (simp add: distinct_card)
  also from s have "\<dots> \<le> card (fst ` set m)"
    by (intro card_mono) simp_all
  also have "\<dots> \<le> card (set m)"
    by (intro card_image_le) simp
  also have "\<dots> \<le> length m"
    by (rule card_length)
  finally show ?thesis .
qed

lemma optimal_tous:
  assumes ctx: "contexte r a" and opt: "optimal r a j d" and l: "length (m_arcs r) \<le> Suc j"
    and m: "marche r a p v w"
  shows "sint (d v) \<le> w"
proof -
  from ctx have bf: "bien_forme r" and ak: "a \<in> fst ` set (m_arcs r)"
    and H1: "\<And>q x w. marche r a q x w \<Longrightarrow> 0 \<le> w"
    by (auto simp: contexte_def sommetExiste_def)
  have "\<exists>p' w'. marche r a p' v w' \<and> w' \<le> w \<and> distinct p'"
    by (rule marche_distincte [OF _ m]) (erule H1)
  then obtain p' w' where m': "marche r a p' v w'"
    and le: "w' \<le> w" and dp: "distinct p'"
    by blast
  from longueur_distincte [OF dp marche_sommets [OF bf ak m']]
  have ll: "length p' \<le> length (m_arcs r)" .
  with l have "length p' \<le> Suc j"
    by simp
  with opt m' ll have "sint (d v) \<le> w'"
    unfolding optimal_def by blast
  with le show ?thesis by simp
qed

lemma marche_bornee:
  assumes ctx: "contexte r a"
    and H2: "\<And>q v w. marche r a q v w \<Longrightarrow> length q \<le> length (m_arcs r) \<Longrightarrow> w < 2147483647"
    and opt: "optimal r a j d" and l: "length (m_arcs r) \<le> Suc j"
    and m: "marche r a p v w"
  shows "sint (d v) < 2147483647"
proof -
  from ctx have bf: "bien_forme r" and ak: "a \<in> fst ` set (m_arcs r)"
    and H1: "\<And>q x w. marche r a q x w \<Longrightarrow> 0 \<le> w"
    by (auto simp: contexte_def sommetExiste_def)
  have "\<exists>p' w'. marche r a p' v w' \<and> w' \<le> w \<and> distinct p'"
    by (rule marche_distincte [OF _ m]) (erule H1)
  then obtain p' w' where m': "marche r a p' v w'"
    and dp: "distinct p'"
    by blast
  from longueur_distincte [OF dp marche_sommets [OF bf ak m']]
  have ll: "length p' \<le> length (m_arcs r)" .
  from H2 [OF m' ll] optimal_tous [OF ctx opt l m'] show ?thesis
    by simp
qed

lemma relation_pred_wf:
  assumes "acyclic (relation_pred r p)"
  shows "wf (relation_pred r p)"
proof -
  have "relation_pred r p \<subseteq> (\<lambda>v. (p v, v)) ` (fst ` set (m_arcs r))"
    by (auto simp: relation_pred_def)
  then have "finite (relation_pred r p)"
    by (rule finite_subset) simp
  from finite_acyclic_wf [OF this assms] show ?thesis .
qed

lemma remonter_fin: "remonter p (- 1) acc = Some acc"
  by (subst remonter.simps) simp

lemma remonter_pas: "v \<noteq> - 1 \<Longrightarrow> remonter p v acc = remonter p (p v) (acc @ [v])"
  by (subst remonter.simps) simp

lemma remonter_marche:
  assumes ctx: "contexte r a" and inv: "inv_bf r a d p"
  shows "v \<in> fst ` set (m_arcs r) \<longrightarrow> sint (d v) < 2147483647 \<longrightarrow>
    (\<exists>ch w. (\<forall>acc. remonter p v acc = Some (acc @ ch)) \<and> marche r a (rev ch) v w \<and>
       w \<le> sint (d v))"
proof -
  let ?K = "fst ` set (m_arcs r)"
  from ctx have bf: "bien_forme r" and ak: "a \<in> ?K" and m1: "- 1 \<notin> ?K"
    by (auto simp: contexte_def sommetExiste_def)
  from inv have da: "d a = 0" and pa: "p a = - 1"
    and P2: "\<And>x. x \<in> ?K \<Longrightarrow> p x \<noteq> - 1 \<Longrightarrow>
        p x \<in> ?K \<and> sint (d (p x)) < 2147483647 \<and> sint (d x) < 2147483647 \<and>
        (\<exists>c. arc r (p x) x c \<and> sint (d (p x)) + sint c \<le> sint (d x))"
    and P3: "\<And>x. x \<in> ?K \<Longrightarrow> x \<noteq> a \<Longrightarrow> sint (d x) < 2147483647 \<Longrightarrow> p x \<noteq> - 1"
    and ac: "acyclic (relation_pred r p)"
    unfolding inv_bf_def by blast+
  from relation_pred_wf [OF ac] have wf: "wf (relation_pred r p)" .
  show ?thesis
  proof (induction v rule: wf_induct_rule [OF wf])
    case (1 v)
    show ?case
    proof (intro impI)
      assume vk: "v \<in> ?K" and fin: "sint (d v) < 2147483647"
      from vk m1 have vn: "v \<noteq> - 1"
        by blast
      show "\<exists>ch w. (\<forall>acc. remonter p v acc = Some (acc @ ch)) \<and> marche r a (rev ch) v w \<and>
          w \<le> sint (d v)"
      proof (cases "v = a")
        case True
        have "\<forall>acc. remonter p v acc = Some (acc @ [v])"
          using vn pa True by (simp add: remonter_pas remonter_fin)
        moreover have "marche r a (rev [v]) v 0"
          using True by (simp add: marche_def)
        moreover have "0 \<le> sint (d v)"
          using True da by simp
        ultimately show ?thesis
          by blast
      next
        case False
        from P3 [OF vk False fin] have pv: "p v \<noteq> - 1" .
        from P2 [OF vk pv] obtain c where uk: "p v \<in> ?K" and fu: "sint (d (p v)) < 2147483647"
          and arc: "arc r (p v) v c" and le: "sint (d (p v)) + sint c \<le> sint (d v)"
          by blast
        from vk pv have "(p v, v) \<in> relation_pred r p"
          unfolding relation_pred_def by blast
        from 1 [OF this] uk fu obtain ch w
          where rm: "\<And>acc. remonter p (p v) acc = Some (acc @ ch)"
            and mu: "marche r a (rev ch) (p v) w" and wu: "w \<le> sint (d (p v))"
          by blast
        from arc bf have g: "getCoutArc r (p v) v = Inr (sint c)"
          by (auto simp: getCoutArc_arc)
        from marche_snoc [OF mu g] have "marche r a (rev (v # ch)) v (w + sint c)"
          by simp
        moreover have "\<forall>acc. remonter p v acc = Some (acc @ (v # ch))"
          using vn rm by (simp add: remonter_pas)
        moreover from wu le have "w + sint c \<le> sint (d v)"
          by simp
        ultimately show ?thesis
          by blast
      qed
    qed
  qed
qed

lemma sint_au_plus: "sint (x :: uint) \<le> 2147483647"
  using sint_lt [of x] by simp

subsection \<open>Networks built with ajouterSommet and ajouterArc are well formed\<close>

lemma crochets_maj_cles:
  "map fst (crochets_maj m k f) = (if k \<in> fst ` set m then map fst m else map fst m @ [k])"
  by (induction m k f rule: crochets_maj.induct) auto

lemma crochets_maj_entrees:
  "kv \<in> set (crochets_maj m k f) \<Longrightarrow>
     kv \<in> set m \<or> (fst kv = k \<and> (\<exists>l. ((k, l) \<in> set m \<or> l = []) \<and> snd kv = f l))"
  by (induction m k f rule: crochets_maj.induct) (auto split: if_splits)

lemma bien_forme_vide: "bien_forme Reseau_vide"
  by (simp add: bien_forme_def Reseau_vide_def)

lemma bien_forme_ajouterSommet:
  assumes bf: "bien_forme r" and a: "ajouterSommet r k = Inr r'"
  shows "bien_forme r'"
proof -
  from a have nk: "k \<notin> fst ` set (m_arcs r)"
    and r': "r' = r\<lparr>m_arcs := crochets_maj (m_arcs r) k (\<lambda>_. []), nbSommets := nbSommets r + 1\<rparr>"
    by (auto simp: ajouterSommet_def sommetExiste_def split: if_splits)
  let ?m = "crochets_maj (m_arcs r) k (\<lambda>_. [])"
  from nk have cles: "map fst ?m = map fst (m_arcs r) @ [k]"
    by (simp add: crochets_maj_cles)
  from bf nk have d: "distinct (map fst ?m)"
    unfolding cles by (simp add: bien_forme_def)
  from cles have "set (map fst ?m) = set (map fst (m_arcs r) @ [k])"
    by simp
  then have ens: "fst ` set ?m = insert k (fst ` set (m_arcs r))"
    by simp
  have e: "distinct (map fst (snd kv)) \<and> (\<forall>a \<in> set (snd kv). fst a \<in> fst ` set ?m)"
    if kv: "kv \<in> set ?m" for kv
  proof -
    from crochets_maj_entrees [OF kv] show ?thesis
    proof
      assume "kv \<in> set (m_arcs r)"
      with bf have "distinct (map fst (snd kv)) \<and>
          (\<forall>a \<in> set (snd kv). fst a \<in> fst ` set (m_arcs r))"
        unfolding bien_forme_def by blast
      with ens show ?thesis
        by blast
    next
      assume "fst kv = k \<and> (\<exists>l. ((k, l) \<in> set (m_arcs r) \<or> l = []) \<and> snd kv = [])"
      then have "snd kv = []"
        by blast
      then show ?thesis
        by simp
    qed
  qed
  from cles have "length (map fst ?m) = length (map fst (m_arcs r) @ [k])"
    by simp
  then have "length ?m = Suc (length (m_arcs r))"
    by simp
  with bf have n: "nbSommets r + 1 = int (length ?m)"
    by (simp add: bien_forme_def)
  from d e n show ?thesis
    unfolding r' bien_forme_def by simp
qed

lemma bien_forme_ajouterArc:
  assumes bf: "bien_forme r" and a: "ajouterArc r u v c t = Inr r'"
  shows "bien_forme r'"
proof -
  from a have e: "arcExiste r u v = Inr False"
    and r': "r' = r\<lparr>m_arcs := crochets_maj (m_arcs r) u (inserer (v, c, t)), nbArcs := nbArcs r + 1\<rparr>"
    by (auto simp: ajouterArc_def split: sum.splits bool.splits)
  from e have uk: "u \<in> fst ` set (m_arcs r)" and vk: "v \<in> fst ` set (m_arcs r)"
    by (auto simp: arcExiste_def sommetExiste_def split: if_splits)
  let ?m = "crochets_maj (m_arcs r) u (inserer (v, c, t))"
  from uk have cles: "map fst ?m = map fst (m_arcs r)"
    by (simp add: crochets_maj_cles)
  from bf have d: "distinct (map fst ?m)"
    unfolding cles by (simp add: bien_forme_def)
  from cles have "set (map fst ?m) = set (map fst (m_arcs r))"
    by simp
  then have ens: "fst ` set ?m = fst ` set (m_arcs r)"
    by simp
  have ins: "distinct (map fst (inserer (v, c, t) l)) \<and>
      (\<forall>a \<in> set (inserer (v, c, t) l). fst a \<in> fst ` set (m_arcs r))"
    if "distinct (map fst l)" and "\<forall>a \<in> set l. fst a \<in> fst ` set (m_arcs r)" for l
    using that vk by (auto simp: inserer_def)
  have e: "distinct (map fst (snd kv)) \<and> (\<forall>a \<in> set (snd kv). fst a \<in> fst ` set ?m)"
    if kv: "kv \<in> set ?m" for kv
  proof -
    from crochets_maj_entrees [OF kv] show ?thesis
    proof
      assume "kv \<in> set (m_arcs r)"
      with bf have "distinct (map fst (snd kv)) \<and>
          (\<forall>a \<in> set (snd kv). fst a \<in> fst ` set (m_arcs r))"
        unfolding bien_forme_def by blast
      with ens show ?thesis
        by simp
    next
      assume "fst kv = u \<and>
          (\<exists>l. ((u, l) \<in> set (m_arcs r) \<or> l = []) \<and> snd kv = inserer (v, c, t) l)"
      then obtain l where l: "(u, l) \<in> set (m_arcs r) \<or> l = []"
        and s: "snd kv = inserer (v, c, t) l"
        by blast
      have "distinct (map fst l) \<and> (\<forall>a \<in> set l. fst a \<in> fst ` set (m_arcs r))"
      proof (cases "l = []")
        case True
        then show ?thesis by simp
      next
        case False
        with l have "(u, l) \<in> set (m_arcs r)"
          by simp
        with bf have "distinct (map fst (snd (u, l))) \<and>
            (\<forall>a \<in> set (snd (u, l)). fst a \<in> fst ` set (m_arcs r))"
          unfolding bien_forme_def by blast
        then show ?thesis by simp
      qed
      with ins [of l] s ens show ?thesis
        by simp
    qed
  qed
  from cles have "length (map fst ?m) = length (map fst (m_arcs r))"
    by simp
  then have "length ?m = length (m_arcs r)"
    by simp
  with bf have n: "nbSommets r = int (length ?m)"
    by (simp add: bien_forme_def)
  from d e n show ?thesis
    unfolding r' bien_forme_def by simp
qed

lemma bien_forme_ajouterSommets:
  "bien_forme r \<Longrightarrow> ajouterSommets ss r = Inr r' \<Longrightarrow> bien_forme r'"
proof (induction ss arbitrary: r)
  case Nil
  then show ?case by simp
next
  case (Cons s ss)
  from Cons.prems(2) obtain r1 where a: "ajouterSommet r s = Inr r1"
    and b: "ajouterSommets ss r1 = Inr r'"
    by (auto split: sum.splits)
  from Cons.IH [OF bien_forme_ajouterSommet [OF Cons.prems(1) a] b] show ?case .
qed

lemma bien_forme_ajouterArcs:
  "bien_forme r \<Longrightarrow> ajouterArcs as r = Inr r' \<Longrightarrow> bien_forme r'"
proof (induction as arbitrary: r)
  case Nil
  then show ?case by simp
next
  case (Cons a as)
  obtain u v c t where a: "a = (u, v, c, t)"
    by (cases a) auto
  from Cons.prems(2) a obtain r1 where a1: "ajouterArc r u v c t = Inr r1"
    and b: "ajouterArcs as r1 = Inr r'"
    by (auto split: sum.splits)
  from Cons.IH [OF bien_forme_ajouterArc [OF Cons.prems(1) a1] b] show ?case .
qed

lemma bien_forme_construire: "construire ss as = Inr r \<Longrightarrow> bien_forme r"
proof -
  assume c: "construire ss as = Inr r"
  then obtain r1 where a: "ajouterSommets ss Reseau_vide = Inr r1" and b: "ajouterArcs as r1 = Inr r"
    by (auto simp: construire_def split: sum.splits)
  from bien_forme_ajouterArcs [OF bien_forme_ajouterSommets [OF bien_forme_vide a] b]
  show ?thesis .
qed

subsection \<open>The network with a detour through an arc of negative cost\<close>

lemma cout_potentiel:
  assumes bf: "bien_forme r" and pot: "\<And>u v c. arc r u v c \<Longrightarrow> h v \<le> h u + sint c"
  shows "cout_chemin r (x # p) = Some w \<Longrightarrow> h (last (x # p)) \<le> h x + w"
proof (induction p arbitrary: x w)
  case Nil
  then show ?case by simp
next
  case (Cons y p)
  from Cons.prems obtain k w' where g: "getCoutArc r x y = Inr k"
    and c: "cout_chemin r (y # p) = Some w'" and w: "w = k + w'"
    by (auto split: sum.splits)
  from g bf obtain c' where a: "arc r x y c'" and k: "k = sint c'"
    by (auto simp: getCoutArc_arc)
  from pot [OF a] k have "h y \<le> h x + k"
    by simp
  with Cons.IH [OF c] w show ?case
    by simp
qed

lemma cout_majore:
  assumes bf: "bien_forme r" and maj: "\<And>u v c. arc r u v c \<Longrightarrow> sint c \<le> B"
  shows "cout_chemin r (x # p) = Some w \<Longrightarrow> w \<le> int (length p) * B"
proof (induction p arbitrary: x w)
  case Nil
  then show ?case by simp
next
  case (Cons y p)
  from Cons.prems obtain k w' where g: "getCoutArc r x y = Inr k"
    and c: "cout_chemin r (y # p) = Some w'" and w: "w = k + w'"
    by (auto split: sum.splits)
  from g bf obtain c' where a: "arc r x y c'" and k: "k = sint c'"
    by (auto simp: getCoutArc_arc)
  from maj [OF a] k have "k \<le> B"
    by simp
  with Cons.IH [OF c] w show ?case
    by (simp add: algebra_simps)
qed

lemma bien_forme_reseau_detour: "bien_forme reseau_detour"
  by (rule bien_forme_construire [OF construire_reseau_detour])

lemma arcs_reseau_detour:
  "arc reseau_detour u v c \<Longrightarrow>
     (u = 1 \<and> v = 2 \<and> c = 20) \<or> (u = 1 \<and> v = 3 \<and> c = 15) \<or> (u = 2 \<and> v = 3 \<and> c = - 10)"
  by (auto simp: arc_def reseau_detour_def)

lemma marches_reseau_detour_positives:
  assumes "marche reseau_detour 1 p v w"
  shows "0 \<le> w"
proof -
  define h :: "uint \<Rightarrow> int" where "h = (\<lambda>x. if x = 2 then 20 else if x = 3 then 10 else 0)"
  from assms obtain q where p: "p = 1 # q" and c: "cout_chemin reseau_detour (1 # q) = Some w"
    by (cases p) (auto simp: marche_def)
  have "h y \<le> h x + sint c" if "arc reseau_detour x y c" for x y c
    using arcs_reseau_detour [OF that] by (auto simp: h_def)
  from cout_potentiel [where h = h, OF bien_forme_reseau_detour this c]
  have "h (last (1 # q)) \<le> h 1 + w"
    by simp
  moreover have "0 \<le> h z" for z
    by (simp add: h_def)
  moreover have "h 1 = 0"
    by (simp add: h_def)
  ultimately show ?thesis
    using order_trans by fastforce
qed

lemma marches_reseau_detour_bornees:
  assumes "marche reseau_detour 1 p v w" and "length p \<le> length (m_arcs reseau_detour)"
  shows "w < 2147483647"
proof -
  from assms(1) obtain q where p: "p = 1 # q" and c: "cout_chemin reseau_detour (1 # q) = Some w"
    by (cases p) (auto simp: marche_def)
  have "sint c \<le> 20" if "arc reseau_detour x y c" for x y c
    using arcs_reseau_detour [OF that] by auto
  from cout_majore [OF bien_forme_reseau_detour this c]
  have "w \<le> int (length q) * 20"
    by simp
  moreover from assms(2) p have "length q \<le> 2"
    by (simp add: reseau_detour_def)
  ultimately show ?thesis
    by simp
qed

text \<open>
  Claim C4, amended. \<^verbatim>\<open>bellmanFord\<close> tolerates arcs of negative cost as long as no walk from
  the origin has a negative cost. Whatever the network, the distance it returns is never
  negative, because a relaxation is accepted only when \<^verbatim>\<open>temp >= 0\<close>. On a well-formed
  network in which 4294967295 (the \<^verbatim>\<open>-1\<close> that marks ``no predecessor'') is not a vertex, no
  walk from the origin has a negative cost and no walk of at most \<^verbatim>\<open>nbSommets\<close> vertices
  costs \<^verbatim>\<open>INT_MAX\<close> or more, the call for two existing vertices returns, leaves the network
  as it is and gives the least cost of a walk from the origin to the destination, with a
  walk of that cost from the origin to the destination (the empty path when the two
  coincide); when the destination cannot be reached it gives \<^verbatim>\<open>INT_MAX\<close> and the empty
  path. The arcs may have negative costs, and the order in which the code visits the
  vertices and the arcs plays no part.
\<close>

theorem bellmanFord_plus_court_chemin:
  "(\<forall>r' dist chemin.
      bellmanFord r numOrigine numDest = Some (r', Inr (dist, chemin)) \<longrightarrow> 0 \<le> dist) \<and>
   (bien_forme r \<and> sommetExiste r numOrigine \<and> sommetExiste r numDest \<and>
    \<not> sommetExiste r (- 1) \<and>
    (\<forall>p v w. marche r numOrigine p v w \<longrightarrow> 0 \<le> w) \<and>
    (\<forall>p v w. marche r numOrigine p v w \<longrightarrow> length p \<le> length (m_arcs r)
       \<longrightarrow> w < 2147483647) \<longrightarrow>
    (\<exists>dist chemin.
       bellmanFord r numOrigine numDest = Some (r, Inr (dist, chemin)) \<and>
       (if \<exists>p w. marche r numOrigine p numDest w
        then (\<forall>p w. marche r numOrigine p numDest w \<longrightarrow> dist \<le> w) \<and>
             (if numOrigine = numDest then dist = 0 \<and> chemin = []
              else marche r numOrigine chemin numDest dist)
        else dist = 2147483647 \<and> chemin = [])))"
proof (intro conjI allI impI)
  fix r' dist chemin
  assume "bellmanFord r numOrigine numDest = Some (r', Inr (dist, chemin))"
  then show "0 \<le> dist"
    by (rule bellmanFord_positif)
next
  assume hyp: "bien_forme r \<and> sommetExiste r numOrigine \<and> sommetExiste r numDest \<and>
    \<not> sommetExiste r (- 1) \<and>
    (\<forall>p v w. marche r numOrigine p v w \<longrightarrow> 0 \<le> w) \<and>
    (\<forall>p v w. marche r numOrigine p v w \<longrightarrow> length p \<le> length (m_arcs r)
       \<longrightarrow> w < 2147483647)"
  then have bf: "bien_forme r" and so: "sommetExiste r numOrigine"
    and sd: "sommetExiste r numDest" and m1: "\<not> sommetExiste r (- 1)"
    and H1: "\<forall>p v w. marche r numOrigine p v w \<longrightarrow> 0 \<le> w"
    and H2: "\<forall>p v w. marche r numOrigine p v w \<longrightarrow> length p \<le> length (m_arcs r)
        \<longrightarrow> w < 2147483647"
    by blast+
  let ?K = "fst ` set (m_arcs r)"
  let ?n = "nat (nbSommets r - 1)"
  from bf so m1 H1 have ctx: "contexte r numOrigine"
    by (simp add: contexte_def)
  from H2 have H2': "\<And>q v w. marche r numOrigine q v w \<Longrightarrow> length q \<le> length (m_arcs r)
      \<Longrightarrow> w < 2147483647"
    by blast
  from H1 have H1': "\<And>q v w. marche r numOrigine q v w \<Longrightarrow> 0 \<le> w"
    by blast
  from sd have dk: "numDest \<in> ?K"
    by (simp add: sommetExiste_def)
  from so have "m_arcs r \<noteq> []"
    by (auto simp: sommetExiste_def)
  with bf have ln: "length (m_arcs r) \<le> Suc (0 + ?n)"
    by (simp add: bien_forme_def)
  obtain d0 p0 where i: "bellmanFord_init (m_arcs r) = (d0, p0)"
    by fastforce
  obtain d1 p1 where b: "bellmanFord_boucle ?n (m_arcs r) (d0(numOrigine := 0)) p0 = (d1, p1)"
    by fastforce
  from init_inv [OF ctx i] have i0: "inv_bf r numOrigine (d0(numOrigine := 0)) p0"
    and o0: "optimal r numOrigine 0 (d0(numOrigine := 0))"
    by simp_all
  from boucle_inv [OF ctx H2' i0 o0 b] have inv: "inv_bf r numOrigine d1 p1"
    and opt: "optimal r numOrigine (0 + ?n) d1"
    by simp_all
  from inv have da: "d1 numOrigine = 0" and pa: "p1 numOrigine = - 1" and pos: "positives d1"
    and P5: "\<And>x. x \<in> ?K \<Longrightarrow> sint (d1 x) < 2147483647 \<Longrightarrow>
        \<exists>q. marche r numOrigine q x (sint (d1 x))"
    and P2: "\<And>x. x \<in> ?K \<Longrightarrow> p1 x \<noteq> - 1 \<Longrightarrow>
        p1 x \<in> ?K \<and> sint (d1 (p1 x)) < 2147483647 \<and> sint (d1 x) < 2147483647 \<and>
        (\<exists>c. arc r (p1 x) x c \<and> sint (d1 (p1 x)) + sint c \<le> sint (d1 x))"
    and P3: "\<And>x. x \<in> ?K \<Longrightarrow> x \<noteq> numOrigine \<Longrightarrow> sint (d1 x) < 2147483647 \<Longrightarrow> p1 x \<noteq> - 1"
    unfolding inv_bf_def by blast+
  from so sd i b have res: "bellmanFord r numOrigine numDest =
      map_option (\<lambda>chemin. (r, Inr (sint (d1 numDest), chemin))) (reconstruire p1 numDest)"
    by (simp add: bellmanFord_def)
  from pos have d0': "0 \<le> sint (d1 numDest)"
    by (simp add: positives_def)
  have tous: "\<forall>q w. marche r numOrigine q numDest w \<longrightarrow> sint (d1 numDest) \<le> w"
    using optimal_tous [OF ctx opt ln] by blast
  show "\<exists>dist chemin.
       bellmanFord r numOrigine numDest = Some (r, Inr (dist, chemin)) \<and>
       (if \<exists>p w. marche r numOrigine p numDest w
        then (\<forall>p w. marche r numOrigine p numDest w \<longrightarrow> dist \<le> w) \<and>
             (if numOrigine = numDest then dist = 0 \<and> chemin = []
              else marche r numOrigine chemin numDest dist)
        else dist = 2147483647 \<and> chemin = [])"
  proof (cases "\<exists>q w. marche r numOrigine q numDest w")
    case True
    then obtain q w where m: "marche r numOrigine q numDest w"
      by blast
    from marche_bornee [OF ctx H2' opt ln m] have fin: "sint (d1 numDest) < 2147483647" .
    show ?thesis
    proof (cases "numOrigine = numDest")
      case e: True
      with pa da res have "bellmanFord r numOrigine numDest = Some (r, Inr (0, []))"
        by (simp add: reconstruire_def)
      moreover have "\<forall>q w. marche r numOrigine q numDest w \<longrightarrow> (0 :: int) \<le> w"
        using H1 by blast
      ultimately show ?thesis
        using True e by simp
    next
      case ne: False
      from P3 [OF dk _ fin] ne have pd: "p1 numDest \<noteq> - 1"
        by blast
      from remonter_marche [OF ctx inv, of numDest] dk fin obtain ch w'
        where rm: "\<And>acc. remonter p1 numDest acc = Some (acc @ ch)"
          and mc: "marche r numOrigine (rev ch) numDest w'" and le: "w' \<le> sint (d1 numDest)"
        by blast
      from optimal_tous [OF ctx opt ln mc] le have "w' = sint (d1 numDest)"
        by simp
      with mc have mc': "marche r numOrigine (rev ch) numDest (sint (d1 numDest))"
        by simp
      from pd rm [of "[]"] res
      have "bellmanFord r numOrigine numDest = Some (r, Inr (sint (d1 numDest), rev ch))"
        by (simp add: reconstruire_def)
      with d0' tous mc' True ne show ?thesis
        by simp
    qed
  next
    case False
    have nf: "\<not> sint (d1 numDest) < 2147483647"
    proof
      assume "sint (d1 numDest) < 2147483647"
      from P5 [OF dk this] False show False
        by blast
    qed
    with sint_au_plus [of "d1 numDest"] have dm: "sint (d1 numDest) = 2147483647"
      by simp
    have pd: "p1 numDest = - 1"
    proof (rule ccontr)
      assume "p1 numDest \<noteq> - 1"
      from P2 [OF dk this] nf show False
        by blast
    qed
    with res dm have "bellmanFord r numOrigine numDest = Some (r, Inr (2147483647, []))"
      by (simp add: reconstruire_def)
    with False show ?thesis
      by simp
  qed
qed

theorem bellmanFord_plus_court_chemin_witness:
  "bien_forme reseau_detour \<and> sommetExiste reseau_detour 1 \<and> sommetExiste reseau_detour 3 \<and>
   \<not> sommetExiste reseau_detour (- 1) \<and>
   getCoutArc reseau_detour 2 3 = Inr (- 10) \<and>
   cout_chemin reseau_detour [1, 3] = Some 15 \<and>
   bellmanFord reseau_detour 1 3 = Some (reseau_detour, Inr (10, [1, 2, 3])) \<and>
   marche reseau_detour 1 [1, 2, 3] 3 10 \<and>
   \<not> (\<exists>p w. marche reseau_detour 1 p 3 w \<and> w < 10)"
proof -
  have s: "sommetExiste reseau_detour 1" "sommetExiste reseau_detour 3"
    "\<not> sommetExiste reseau_detour (- 1)"
    by code_simp+
  have g: "getCoutArc reseau_detour 2 3 = Inr (- 10)"
    by code_simp
  have c: "cout_chemin reseau_detour [1, 3] = Some 15"
    by code_simp
  have b: "bellmanFord reseau_detour 1 3 = Some (reseau_detour, Inr (10, [1, 2, 3]))"
    by code_simp
  have m: "marche reseau_detour 1 [1, 2, 3] 3 10"
    by code_simp
  have H1: "\<forall>p v w. marche reseau_detour 1 p v w \<longrightarrow> 0 \<le> w"
    using marches_reseau_detour_positives by blast
  have H2: "\<forall>p v w. marche reseau_detour 1 p v w \<longrightarrow> length p \<le> length (m_arcs reseau_detour)
      \<longrightarrow> w < 2147483647"
    using marches_reseau_detour_bornees by blast
  from m have e: "\<exists>p w. marche reseau_detour 1 p 3 w"
    by blast
  from bellmanFord_plus_court_chemin [where r = reseau_detour and numOrigine = 1 and numDest = 3]
    bien_forme_reseau_detour s H1 H2
  have "\<exists>dist chemin.
       bellmanFord reseau_detour 1 3 = Some (reseau_detour, Inr (dist, chemin)) \<and>
       (if \<exists>p w. marche reseau_detour 1 p 3 w
        then (\<forall>p w. marche reseau_detour 1 p 3 w \<longrightarrow> dist \<le> w) \<and>
             (if (1 :: uint) = 3 then dist = 0 \<and> chemin = []
              else marche reseau_detour 1 chemin 3 dist)
        else dist = 2147483647 \<and> chemin = [])"
    by blast
  with b have "\<forall>p w. marche reseau_detour 1 p 3 w \<longrightarrow> 10 \<le> w"
    unfolding if_P [OF e] by simp
  then have "\<not> (\<exists>p w. marche reseau_detour 1 p 3 w \<and> w < 10)"
    by fastforce
  with bien_forme_reseau_detour s g c b m show ?thesis
    by simp
qed


section \<open>Invariants of the priority heap\<close>

text \<open>
  A predicate on key and vertex that holds for every node of the heap is kept by each
  heap operation, provided that lowering a key keeps it.
\<close>

lemma tous_fusionner: "tous P a \<Longrightarrow> tous P b \<Longrightarrow> tous P (fusionner a b)"
  by (cases a; cases b) auto

lemma tous_fusion_paires:
  "\<forall>n\<in>set l. tous P n \<Longrightarrow> \<forall>n\<in>set (fusion_paires l). tous P n"
  by (induction l rule: fusion_paires.induct) (auto simp: tous_fusionner)

lemma tous_fusion_droite:
  "\<forall>n\<in>set l. tous P n \<Longrightarrow> pour_tous P (fusion_droite l)"
  by (induction l) (auto simp: pour_tous_def tous_fusionner split: option.splits)

lemma tous_enfants: "tous P n \<Longrightarrow> \<forall>c\<in>set (enfants n). tous P c"
  by (cases n) simp

lemma tous_racine: "tous P n \<Longrightarrow> P (distance n) (m_sommet n)"
  by (cases n) simp

lemma pour_tous_supprimerRacine:
  assumes "pour_tous P tas" and "supprimerRacine tas = Inr tas'"
  shows "pour_tous P tas'"
proof (cases tas)
  case None
  with assms(2) show ?thesis by (simp add: supprimerRacine_def)
next
  case (Some racine)
  with assms(1) have "tous P racine" by (simp add: pour_tous_def)
  then have "\<forall>c\<in>set (enfants racine). tous P c" by (rule tous_enfants)
  then have "\<forall>c\<in>set (fusion_paires (enfants racine)). tous P c" by (rule tous_fusion_paires)
  then have "pour_tous P (fusion_droite (fusion_paires (enfants racine)))"
    by (rule tous_fusion_droite)
  with assms(2) Some show ?thesis by (simp add: supprimerRacine_def)
qed

lemma tous_trouver:
  "tous P t \<Longrightarrow> trouver p t = Some n \<Longrightarrow> tous P n"
  "\<forall>t\<in>set l. tous P t \<Longrightarrow> trouver_liste p l = Some n \<Longrightarrow> tous P n"
  by (induction p t and p l arbitrary: n and n rule: trouver_trouver_liste.induct)
     (auto split: if_splits option.splits)

lemma tous_detacher:
  "tous P t \<Longrightarrow> tous P (detacher p t)"
  "\<forall>t\<in>set l. tous P t \<Longrightarrow> \<forall>t\<in>set (detacher_liste p l). tous P t"
proof (induction p t and p l rule: detacher_detacher_liste.induct)
  case (1 p k s c)
  then show ?case by simp
next
  case (2 p)
  then show ?case by simp
next
  case (3 p n reste)
  show ?case
  proof (cases "m_sommet n = p")
    case True
    with 3 show ?thesis by simp
  next
    case False
    from 3(3) have "tous P n" and "\<forall>t\<in>set reste. tous P t" by simp_all
    with 3(1,2) False have "tous P (detacher p n)"
      and "\<forall>t\<in>set (detacher_liste p reste). tous P t" by blast+
    with False show ?thesis by simp
  qed
qed

lemma pour_tous_lire:
  assumes "pour_tous P tas" and "lire tas p = Some n"
  shows "tous P n"
proof (cases tas)
  case None
  with assms(2) show ?thesis by (simp add: lire_def)
next
  case (Some racine)
  with assms have "tous P racine" and "trouver p racine = Some n"
    by (simp_all add: pour_tous_def lire_def)
  then show ?thesis by (rule tous_trouver(1))
qed

lemma pour_tous_ajouterNoeud:
  "pour_tous P tas \<Longrightarrow> P cle s \<Longrightarrow> pour_tous P (fst (ajouterNoeud tas cle s))"
  by (auto simp: ajouterNoeud_def pour_tous_def tous_fusionner split: option.splits)

lemma pour_tous_diminuerDistance:
  assumes inv: "pour_tous P tas"
    and dec: "\<And>k s. P k s \<Longrightarrow> cle \<le> k \<Longrightarrow> P cle s"
    and res: "diminuerDistance tas ptr cle = Inr tas'"
  shows "pour_tous P tas'"
proof -
  from res obtain p racine n where ptr: "ptr = Some p" and tas: "tas = Some racine"
    and n: "trouver p racine = Some n" and le: "\<not> distance n < cle"
    by (auto simp: diminuerDistance_def split: option.splits if_splits)
  from inv tas have r: "tous P racine" by (simp add: pour_tous_def)
  from tous_trouver(1) [OF r n] have tn: "tous P n" .
  from le have "cle \<le> distance n" by simp
  with dec tous_racine [OF tn] have pn: "P cle (m_sommet n)" by blast
  show ?thesis
  proof (cases "m_sommet racine = p")
    case True
    with n have "n = racine" by (cases racine) simp
    with pn tous_enfants [OF r] res ptr tas n le True show ?thesis
      by (auto simp: diminuerDistance_def pour_tous_def)
  next
    case False
    have "tous P (Noeud cle (m_sommet n) (enfants n))"
      using pn tous_enfants [OF tn] by simp
    with tous_detacher(1) [OF r, of p] res ptr tas n le False show ?thesis
      by (auto simp: diminuerDistance_def pour_tous_def tous_fusionner)
  qed
qed

lemma pour_tous_mpcc_init_aux:
  "pour_tous P (fst s) \<Longrightarrow> \<forall>kv\<in>set m. P 9999 (fst kv) \<Longrightarrow>
   pour_tous P (fst (fold (\<lambda>kv (tas, sommets).
             (let (tas', ptr) = ajouterNoeud tas 9999 (fst kv)
              in (tas', sommets(fst kv := (ptr, 9999))))) m s))"
proof (induction m arbitrary: s)
  case Nil
  then show ?case by simp
next
  case (Cons kv m)
  have "pour_tous P (fst (ajouterNoeud (fst s) 9999 (fst kv)))"
    using Cons.prems by (intro pour_tous_ajouterNoeud) simp_all
  then have "pour_tous P (fst (case s of (tas, sommets) \<Rightarrow>
             (let (tas', ptr) = ajouterNoeud tas 9999 (fst kv)
              in (tas', sommets(fst kv := (ptr, 9999))))))"
    by (simp add: case_prod_beta)
  moreover have "\<forall>kv\<in>set m. P 9999 (fst kv)"
    using Cons.prems by simp
  ultimately show ?case
    by (simp only: fold_simps) (rule Cons.IH)
qed

lemma pour_tous_mpcc_init:
  "\<forall>kv\<in>set m. P 9999 (fst kv) \<Longrightarrow> pour_tous P (fst (mpcc_init m))"
  unfolding mpcc_init_def
  by (rule pour_tous_mpcc_init_aux) (simp_all add: pour_tous_def)

lemma pour_tous_mpcc_relacher:
  assumes dec: "\<And>k s c. P k s \<Longrightarrow> c \<le> k \<Longrightarrow> P c s"
  shows "pour_tous P tas \<Longrightarrow> mpcc_relacher du us arcs tas sommets = Inr (tas', sommets')
    \<Longrightarrow> pour_tous P tas'"
proof (induction arcs arbitrary: tas sommets)
  case Nil
  then show ?case by simp
next
  case (Cons u arcs)
  show ?case
  proof (cases "fst (sommets (fst u))")
    case None
    with Cons show ?thesis by simp
  next
    case (Some p)
    with Cons.prems(2) obtain n where n: "lire tas p = Some n"
      by (simp split: option.splits)
    show ?thesis
    proof (cases "du + fst (snd u) < distance n")
      case False
      with Cons Some n show ?thesis by (simp add: Let_def)
    next
      case True
      with Cons.prems(2) Some n obtain tas1 where
        d: "diminuerDistance tas (Some p) (du + fst (snd u)) = Inr tas1"
        by (simp add: Let_def split: sum.splits)
      have inv1: "pour_tous P tas1"
        by (rule pour_tous_diminuerDistance [OF Cons.prems(1) _ d]) (rule dec)
      from Cons.prems(2) Some n True d obtain s1 where
        "mpcc_relacher du us arcs tas1 s1 = Inr (tas', sommets')"
        by (simp add: Let_def split: option.splits)
      from Cons.IH [OF inv1 this] show ?thesis .
    qed
  qed
qed

section \<open>The distance returned by the heap-accelerated search\<close>

lemma crochets_present: "k \<in> fst ` set m \<Longrightarrow> crochets m k = (m, snd (crochets m k))"
  by (auto simp: crochets_def map_of_eq_None_iff split: option.splits)

lemma sint_borne: "(l :: uint) \<le> 9999 \<Longrightarrow> sint l \<le> 9999"
proof -
  assume a: "l \<le> 9999"
  then have u: "uint l \<le> 9999"
    by (simp add: word_le_def)
  have "sint l = signed_take_bit (LENGTH(32) - Suc 0) (uint l)"
    by (rule sint_uint)
  also have "\<dots> = uint l"
  proof (rule signed_take_bit_int_eq_self)
    show "- (2 ^ (LENGTH(32) - Suc 0)) \<le> uint l"
      by (rule order_trans [of _ 0]) simp_all
    from u show "uint l < 2 ^ (LENGTH(32) - Suc 0)" by simp
  qed
  finally show ?thesis using u by simp
qed

lemma mpcc_boucle_borne:
  "pour_tous (\<lambda>k s. k \<le> 9999) tas \<Longrightarrow> l \<le> 9999 \<Longrightarrow>
   mpcc_boucle n d m tas sommets l = (m', Inr (sommets', l')) \<Longrightarrow> l' \<le> 9999"
proof (induction n arbitrary: m tas sommets l)
  case 0
  then show ?case by simp
next
  case (Suc n)
  from Suc.prems(3) obtain u where u: "tas = Some u"
    by (auto simp: getRacine_def split: option.splits)
  obtain m1 arcs where c: "crochets m (m_sommet u) = (m1, arcs)"
    by fastforce
  from Suc.prems(3) u c obtain tas1 s1 where
    r: "mpcc_relacher (distance u) (m_sommet u) arcs tas sommets = Inr (tas1, s1)"
    by (auto simp: getRacine_def Let_def split: sum.splits)
  from Suc.prems(3) u c r obtain ue where ue: "lire tas1 (m_sommet u) = Some ue"
    by (auto simp: getRacine_def Let_def split: option.splits)
  from Suc.prems(3) u c r ue obtain tas2 where s: "supprimerRacine tas1 = Inr tas2"
    by (auto simp: getRacine_def Let_def split: sum.splits)
  have inv1: "pour_tous (\<lambda>k s. k \<le> 9999) tas1"
    by (rule pour_tous_mpcc_relacher [OF _ Suc.prems(1) r]) simp
  have inv2: "pour_tous (\<lambda>k s. k \<le> 9999) tas2"
    by (rule pour_tous_supprimerRacine [OF inv1 s])
  from pour_tous_lire [OF inv1 ue] have due: "distance ue \<le> 9999"
    by (cases ue) simp
  show ?case
  proof (cases "m_sommet ue = d")
    case True
    with Suc.prems(3) u c r ue s have "l' = distance ue"
      by (simp add: getRacine_def Let_def)
    with due show ?thesis by simp
  next
    case False
    with Suc.prems(3) u c r ue s have
      "mpcc_boucle n d m1 tas2 (s1(m_sommet ue := (None, snd (s1 (m_sommet ue))))) l
         = (m', Inr (sommets', l'))"
      by (simp add: getRacine_def Let_def)
    from Suc.IH [OF inv2 Suc.prems(2) this] show ?thesis .
  qed
qed

lemma meilleurPlusCourtChemin_borne:
  assumes "meilleurPlusCourtChemin r numOrigine numDest = Some (r', Inr (dist, chemin))"
  shows "dist \<le> 9999"
proof -
  obtain tas sommets where i: "mpcc_init (m_arcs r) = (tas, sommets)"
    by fastforce
  from assms i obtain tas' where
    d: "diminuerDistance tas (fst (sommets numOrigine)) 0 = Inr tas'"
    by (auto simp: meilleurPlusCourtChemin_def split: if_splits sum.splits)
  obtain m' res where b:
    "mpcc_boucle (length (m_arcs r)) numDest (m_arcs r) tas' sommets 0 = (m', res)"
    by fastforce
  from assms i d b obtain sommets' l where res: "res = Inr (sommets', l)" and dist: "dist = sint l"
    by (auto simp: meilleurPlusCourtChemin_def split: if_splits sum.splits)
  have "pour_tous (\<lambda>k s. k \<le> 9999) (fst (mpcc_init (m_arcs r)))"
    by (rule pour_tous_mpcc_init) simp
  with i have inv: "pour_tous (\<lambda>k s. k \<le> 9999) tas"
    by simp
  have inv': "pour_tous (\<lambda>k s. k \<le> 9999) tas'"
    by (rule pour_tous_diminuerDistance [OF inv _ d]) simp
  from b res have "mpcc_boucle (length (m_arcs r)) numDest (m_arcs r) tas' sommets 0
      = (m', Inr (sommets', l))"
    by simp
  from mpcc_boucle_borne [OF inv' _ this] have "l \<le> 9999"
    by simp
  with dist show ?thesis
    by (simp add: sint_borne)
qed

text \<open>
  Claim C9. Whenever \<^verbatim>\<open>meilleurPlusCourtChemin\<close> returns, the distance it returns is at most
  9999, the key every heap node starts with: keys are only ever lowered, and the returned
  \<^verbatim>\<open>longueur_chemin\<close> is 0 or the key of an extracted node. The real length of the shortest
  path plays no part.
\<close>

theorem meilleurPlusCourtChemin_au_plus_9999:
  "meilleurPlusCourtChemin r numOrigine numDest = Some (r', Inr (dist, chemin))
     \<Longrightarrow> dist \<le> 9999"
  by (rule meilleurPlusCourtChemin_borne)

theorem meilleurPlusCourtChemin_au_plus_9999_witness:
  "cout_chemin reseau_arc_long [0, 2] = Some 10000 \<and>
   meilleurPlusCourtChemin reseau_arc_long 0 2
     = Some (reseau_arc_long, Inr (9999, [0, 2, 9999])) \<and>
   (9999 :: int) \<le> 9999"
proof -
  have c: "cout_chemin reseau_arc_long [0, 2] = Some 10000"
    by code_simp
  have h: "meilleurPlusCourtChemin reseau_arc_long 0 2
      = Some (reseau_arc_long, Inr (9999, [0, 2, 9999]))"
    by code_simp
  show ?thesis
    using c h meilleurPlusCourtChemin_au_plus_9999 [OF h] by simp
qed

section \<open>The path operations leave the network as it is\<close>

text \<open>
  \<^verbatim>\<open>dijkstra\<close> and \<^verbatim>\<open>meilleurPlusCourtChemin\<close> read \<^verbatim>\<open>m_arcs\<close> through \<^verbatim>\<open>operator[]\<close>, which
  would add an entry for an absent key. The key is always a member of the working set or
  the vertex of a heap node, and both hold vertices of the network only.
\<close>

lemma mpcc_boucle_table:
  "pour_tous (\<lambda>k s. s \<in> fst ` set m) tas \<Longrightarrow> fst (mpcc_boucle n d m tas sommets l) = m"
proof (induction n arbitrary: tas sommets l)
  case 0
  then show ?case by simp
next
  case (Suc n)
  show ?case
  proof (cases tas)
    case None
    then show ?thesis by (simp add: getRacine_def)
  next
    case (Some u)
    with Suc.prems have "tous (\<lambda>k s. s \<in> fst ` set m) u"
      by (simp add: pour_tous_def)
    then have "m_sommet u \<in> fst ` set m"
      by (cases u) simp
    then obtain arcs where c: "crochets m (m_sommet u) = (m, arcs)"
      using crochets_present by blast
    show ?thesis
    proof (cases "mpcc_relacher (distance u) (m_sommet u) arcs tas sommets")
      case (Inl e)
      with Some c show ?thesis
        by (simp add: getRacine_def Let_def)
    next
      case (Inr ts)
      then obtain tas1 s1 where r:
        "mpcc_relacher (distance u) (m_sommet u) arcs tas sommets
           = Inr (tas1, s1)"
        by (cases ts) simp
      have inv1: "pour_tous (\<lambda>k s. s \<in> fst ` set m) tas1"
        by (rule pour_tous_mpcc_relacher [OF _ Suc.prems r])
      show ?thesis
      proof (cases "lire tas1 (m_sommet u)")
        case None
        with Some c r show ?thesis
          by (simp add: getRacine_def Let_def)
      next
        case ue: (Some ue)
        show ?thesis
        proof (cases "supprimerRacine tas1")
          case (Inl e)
          with Some c r ue show ?thesis
            by (simp add: getRacine_def Let_def)
        next
          case (Inr tas2)
          have inv2: "pour_tous (\<lambda>k s. s \<in> fst ` set m) tas2"
            by (rule pour_tous_supprimerRacine [OF inv1 Inr])
          from Suc.IH [OF inv2] Some c r ue Inr show ?thesis
            by (simp add: getRacine_def Let_def)
        qed
      qed
    qed
  qed
qed

lemma meilleurPlusCourtChemin_reseau:
  assumes "meilleurPlusCourtChemin r numOrigine numDest = Some (r', res)"
  shows "r' = r"
proof -
  obtain tas sommets where i: "mpcc_init (m_arcs r) = (tas, sommets)"
    by fastforce
  have "pour_tous (\<lambda>k s. s \<in> fst ` set (m_arcs r)) (fst (mpcc_init (m_arcs r)))"
    by (rule pour_tous_mpcc_init) simp
  with i have inv: "pour_tous (\<lambda>k s. s \<in> fst ` set (m_arcs r)) tas"
    by simp
  show ?thesis
  proof (cases "diminuerDistance tas (fst (sommets numOrigine)) 0")
    case (Inl e)
    with assms i show ?thesis
      by (auto simp: meilleurPlusCourtChemin_def split: if_splits)
  next
    case (Inr tas')
    have inv': "pour_tous (\<lambda>k s. s \<in> fst ` set (m_arcs r)) tas'"
      by (rule pour_tous_diminuerDistance [OF inv _ Inr])
    have "fst (mpcc_boucle (length (m_arcs r)) numDest (m_arcs r) tas' sommets 0) = m_arcs r"
      by (rule mpcc_boucle_table [OF inv'])
    with assms i Inr show ?thesis
      by (auto simp: meilleurPlusCourtChemin_def split: if_splits prod.splits sum.splits)
  qed
qed

lemma choisir_min_dans: "choisir_min distances q debut \<in> insert debut (set q)"
  unfolding choisir_min_def
proof (induction q arbitrary: debut)
  case Nil
  show ?case by simp
next
  case (Cons noeud q)
  show ?case
    using Cons.IH [of noeud] Cons.IH [of debut] by auto
qed

lemma dijkstra_init_Q_aux:
  "set (snd (snd s)) \<subseteq> K \<Longrightarrow> fst ` set m \<subseteq> K \<Longrightarrow>
   set (snd (snd (fold (\<lambda>kv (distances, predecesseurs, q).
             (distances(fst kv := max_poids), predecesseurs(fst kv := - 1), inserer_ens (fst kv) q))
          m s))) \<subseteq> K"
proof (induction m arbitrary: s)
  case Nil
  then show ?case by simp
next
  case (Cons kv m)
  show ?case
    by (simp only: fold_simps, rule Cons.IH)
       (use Cons.prems in \<open>auto simp: case_prod_beta inserer_ens_def\<close>)
qed

lemma dijkstra_init_Q: "set (snd (snd (dijkstra_init m))) \<subseteq> fst ` set m"
  unfolding dijkstra_init_def
  by (rule dijkstra_init_Q_aux) simp_all

lemma dijkstra_boucle_table:
  "set q \<subseteq> fst ` set m \<Longrightarrow> fst (dijkstra_boucle n d m distances predecesseurs q) = m"
proof (induction n arbitrary: distances predecesseurs q)
  case 0
  then show ?case by simp
next
  case (Suc n)
  show ?case
  proof (cases q)
    case Nil
    then show ?thesis by simp
  next
    case (Cons debut reste)
    have "choisir_min distances q debut \<in> insert debut (set q)"
      by (rule choisir_min_dans)
    with Cons Suc.prems have "choisir_min distances q debut \<in> fst ` set m"
      by auto
    then obtain arcs where c: "crochets m (choisir_min distances q debut) = (m, arcs)"
      using crochets_present by blast
    have "set (removeAll (choisir_min distances q debut) q) \<subseteq> fst ` set m"
      using Suc.prems by auto
    note ih = Suc.IH [OF this]
    show ?thesis
      using Cons c ih by (simp add: Let_def case_prod_beta)
  qed
qed

lemma dijkstra_reseau:
  assumes "dijkstra r numOrigine numDest = Some (r', res)"
  shows "r' = r"
proof -
  obtain distances predecesseurs q where i: "dijkstra_init (m_arcs r) = (distances, predecesseurs, q)"
    by (metis prod_cases3)
  from dijkstra_init_Q [of "m_arcs r"] i have "set q \<subseteq> fst ` set (m_arcs r)"
    by simp
  then have "fst (dijkstra_boucle (nat (nbSommets r)) numDest (m_arcs r)
      (distances(numOrigine := 0)) predecesseurs q) = m_arcs r"
    by (rule dijkstra_boucle_table)
  with assms i show ?thesis
    by (auto simp: dijkstra_def split: if_splits prod.splits sum.splits)
qed

lemma bellmanFord_reseau:
  assumes "bellmanFord r numOrigine numDest = Some (r', res)"
  shows "r' = r"
  using assms by (auto simp: bellmanFord_def Let_def split: if_splits prod.splits)

text \<open>
  Claim C10. Each of the three path operations, when its call ends (with a distance and a
  path, or with an exception), leaves the network as it was: the same counters and the
  same adjacency table, hence the same vertices, arcs, costs and types. Where the model
  ends in \<open>comportement_indefini\<close> the network it reports is the one of the last defined
  step, and the C++ promises nothing.
\<close>

theorem chemins_reseau_inchange:
  "(dijkstra r numOrigine numDest = Some (r1, res1) \<longrightarrow> r1 = r) \<and>
   (meilleurPlusCourtChemin r numOrigine numDest = Some (r2, res2) \<longrightarrow> r2 = r) \<and>
   (bellmanFord r numOrigine numDest = Some (r3, res3) \<longrightarrow> r3 = r)"
  using dijkstra_reseau meilleurPlusCourtChemin_reseau bellmanFord_reseau by blast

theorem chemins_reseau_inchange_witness:
  "dijkstra reseau_scenario 1 4 = Some (reseau_scenario, Inr (4, [1, 2, 3, 4])) \<and>
   meilleurPlusCourtChemin reseau_scenario 1 4 = Some (reseau_scenario, Inr (4, [1, 4, 3, 2])) \<and>
   bellmanFord reseau_scenario 1 4 = Some (reseau_scenario, Inr (4, [1, 2, 3, 4])) \<and>
   reseau_scenario = reseau_scenario"
proof -
  have h1: "dijkstra reseau_scenario 1 4 = Some (reseau_scenario, Inr (4, [1, 2, 3, 4]))"
    by code_simp
  have h2: "meilleurPlusCourtChemin reseau_scenario 1 4
      = Some (reseau_scenario, Inr (4, [1, 4, 3, 2]))"
    by code_simp
  have h3: "bellmanFord reseau_scenario 1 4 = Some (reseau_scenario, Inr (4, [1, 2, 3, 4]))"
    by code_simp
  show ?thesis
    using h1 h2 h3
      chemins_reseau_inchange [of reseau_scenario 1 4 reseau_scenario "Inr (4, [1, 2, 3, 4])"
        reseau_scenario "Inr (4, [1, 4, 3, 2])" reseau_scenario "Inr (4, [1, 2, 3, 4])"]
    by simp
qed

end
